theory Spec2Isabelle
  imports
    Main
    "HOL-Library.Char_ord"
    "HOL-Library.List_Lexorder"
    "HOL-Library.Multiset"
begin

section \<open>Characters and strings of the scripts\<close>

text \<open>
  A Python \<^verbatim>\<open>str\<close> is a sequence of Unicode code points.  \<^verbatim>\<open>slugify\<close> is modelled on
  sequences of code points (natural numbers), so that every string is covered.  It
  consults three tables of the Python runtime, which are no part of the repository and
  are parameters of the model: \<^verbatim>\<open>str.lower\<close>, a function of the whole string (one code
  point can become several, and the capital sigma is lowered by its context), and the
  classes that \<^verbatim>\<open>\w\<close> and \<^verbatim>\<open>\s\<close> of a \<^verbatim>\<open>str\<close> pattern of module \<^verbatim>\<open>re\<close> are built from:
  \<^verbatim>\<open>str.isalnum\<close> and \<^verbatim>\<open>str.isspace\<close>.  Whatever the tables say, \<^verbatim>\<open>\s\<close> matches the
  six whitespace characters of ASCII.
\<close>

type_synonym code_point = nat

type_synonym ustring = "code_point list"

record unicode =
  lower_of :: "ustring \<Rightarrow> ustring"
  isalnum_of :: "code_point \<Rightarrow> bool"
  isspace_of :: "code_point \<Rightarrow> bool"

definition ascii_space :: "code_point \<Rightarrow> bool" where
  \<comment> \<open>the class \<^verbatim>\<open>[ \t\n\r\f\v]\<close>, which \<^verbatim>\<open>\s\<close> contains on every runtime\<close>
  "ascii_space c = ((9 \<le> c \<and> c \<le> 13) \<or> c = 32)"

definition cp :: "char \<Rightarrow> code_point" where
  \<comment> \<open>the code point of a character below U+0100\<close>
  "cp c = of_char c"

section \<open>Slug generation\<close>

text \<open>
  \<^verbatim>\<open>slugify\<close> is three calls of \<^verbatim>\<open>re.sub\<close>.  Each is modelled as the scan that
  \<^verbatim>\<open>re.sub\<close> performs: from left to right, at every position the leftmost, longest
  match of the pattern is replaced and the scan goes on behind it; a character no match
  starts at is copied.
\<close>

definition word_char :: "unicode \<Rightarrow> code_point \<Rightarrow> bool" where
  \<comment> \<open>the class \<^verbatim>\<open>\w\<close>: alphanumeric or the underscore\<close>
  "word_char u c = (isalnum_of u c \<or> c = cp CHR ''_'')"

definition space_char :: "unicode \<Rightarrow> code_point \<Rightarrow> bool" where
  \<comment> \<open>the class \<^verbatim>\<open>\s\<close>: the whitespace of ASCII and of the table\<close>
  "space_char u c = (ascii_space c \<or> isspace_of u c)"

definition special_char :: "unicode \<Rightarrow> code_point \<Rightarrow> bool" where
  \<comment> \<open>the class \<^verbatim>\<open>[^\w\s-]\<close>\<close>
  "special_char u c = (\<not> (word_char u c \<or> space_char u c \<or> c = cp CHR ''-''))"

definition sep_char :: "unicode \<Rightarrow> code_point \<Rightarrow> bool" where
  \<comment> \<open>the class \<^verbatim>\<open>[\s_-]\<close>\<close>
  "sep_char u c = (space_char u c \<or> c = cp CHR ''_'' \<or> c = cp CHR ''-'')"

definition hyphen :: "code_point \<Rightarrow> bool" where
  "hyphen c = (c = cp CHR ''-'')"

fun sub_special :: "unicode \<Rightarrow> ustring \<Rightarrow> ustring" where
  \<comment> \<open>\<^verbatim>\<open>re.sub(r'[^\w\s-]', '', text)\<close>\<close>
  "sub_special u [] = []"
| "sub_special u (c # cs) =
     (if special_char u c then sub_special u cs else c # sub_special u cs)"

function sub_seps :: "unicode \<Rightarrow> ustring \<Rightarrow> ustring" where
  \<comment> \<open>\<^verbatim>\<open>re.sub(r'[\s_-]+', '-', text)\<close>\<close>
  "sub_seps u [] = []"
| "sub_seps u (c # cs) =
     (if sep_char u c then cp CHR ''-'' # sub_seps u (dropWhile (sep_char u) cs)
      else c # sub_seps u cs)"
  by pat_completeness auto
termination
  by (relation "measure (\<lambda>(u, cs). length cs)")
     (auto simp: length_dropWhile_le less_Suc_eq_le)

definition at_end :: "ustring \<Rightarrow> bool" where
  \<comment> \<open>where \<^verbatim>\<open>$\<close> matches without \<^verbatim>\<open>re.MULTILINE\<close>: at the end of the string and
      before a newline that ends it\<close>
  "at_end rest = (rest = [] \<or> rest = [cp CHR 0x0A])"

fun sub_tail :: "ustring \<Rightarrow> ustring" where
  \<comment> \<open>the alternative \<^verbatim>\<open>-+$\<close>, tried at every position\<close>
  "sub_tail [] = []"
| "sub_tail (c # cs) =
     (if hyphen c \<and> at_end (dropWhile hyphen cs) then dropWhile hyphen cs
      else c # sub_tail cs)"

definition sub_edges :: "ustring \<Rightarrow> ustring" where
  \<comment> \<open>\<^verbatim>\<open>re.sub(r'^-+|-+$', '', text)\<close>: \<^verbatim>\<open>^-+\<close> can match at position 0 only\<close>
  "sub_edges text = sub_tail (dropWhile hyphen text)"

definition slugify_with :: "unicode \<Rightarrow> ustring \<Rightarrow> ustring" where
  \<comment> \<open>\<^verbatim>\<open>slugify(text)\<close> on a runtime with the tables \<open>u\<close>\<close>
  "slugify_with u text = sub_edges (sub_seps u (sub_special u (lower_of u text)))"

subsection \<open>The tables below U+0100\<close>

text \<open>
  The rows of Python's tables for the code points \<^verbatim>\<open>U+0000\<close> to \<^verbatim>\<open>U+00FF\<close>.  In this
  range \<^verbatim>\<open>str.lower\<close> works character by character.  \<open>latin1\<close> continues the rows
  by ``neither alphanumeric nor whitespace, unchanged by \<^verbatim>\<open>lower\<close>''; it is used
  for strings of this range only.  The other parts of the model hold their strings as
  HOL strings, whose characters are these code points; there \<^const>\<open>length\<close> is Python's
  \<^verbatim>\<open>len\<close>, strings are ordered as Python orders them (lexicographically by code point, a
  proper prefix before its extensions), and \<open>slugify\<close> is \<open>slugify_with latin1\<close>.
\<close>

definition latin1_isspace :: "code_point \<Rightarrow> bool" where
  \<comment> \<open>\<^verbatim>\<open>str.isspace\<close>: TAB, LF, VT, FF, CR, FS, GS, RS, US, SPACE, NEL, NBSP\<close>
  "latin1_isspace n = ((9 \<le> n \<and> n \<le> 13) \<or> (28 \<le> n \<and> n \<le> 32) \<or> n = 133 \<or> n = 160)"

definition latin1_isalpha :: "code_point \<Rightarrow> bool" where
  \<comment> \<open>\<^verbatim>\<open>str.isalpha\<close>: the letters (general categories L*) below U+0100\<close>
  "latin1_isalpha n =
     ((65 \<le> n \<and> n \<le> 90) \<or> (97 \<le> n \<and> n \<le> 122) \<or> n = 170 \<or> n = 181 \<or> n = 186
      \<or> (192 \<le> n \<and> n \<le> 214) \<or> (216 \<le> n \<and> n \<le> 246) \<or> (248 \<le> n \<and> n \<le> 255))"

definition latin1_isdigit :: "code_point \<Rightarrow> bool" where
  \<comment> \<open>\<^verbatim>\<open>str.isdigit\<close>: 0-9 and the superscripts 2, 3 and 1\<close>
  "latin1_isdigit n = ((48 \<le> n \<and> n \<le> 57) \<or> n = 178 \<or> n = 179 \<or> n = 185)"

definition latin1_isnumeric :: "code_point \<Rightarrow> bool" where
  \<comment> \<open>\<^verbatim>\<open>str.isnumeric\<close>: the digits and the fractions 1/4, 1/2, 3/4\<close>
  "latin1_isnumeric n = (latin1_isdigit n \<or> (188 \<le> n \<and> n \<le> 190))"

definition latin1_isalnum :: "code_point \<Rightarrow> bool" where
  \<comment> \<open>\<^verbatim>\<open>str.isalnum\<close>: \<^verbatim>\<open>isalpha\<close>, \<^verbatim>\<open>isdecimal\<close>, \<^verbatim>\<open>isdigit\<close> or \<^verbatim>\<open>isnumeric\<close>\<close>
  "latin1_isalnum n = (latin1_isalpha n \<or> latin1_isnumeric n)"

definition latin1_isupper :: "code_point \<Rightarrow> bool" where
  \<comment> \<open>the code points that \<^verbatim>\<open>str.lower\<close> changes: A-Z and U+00C0 to U+00DE but U+00D7\<close>
  "latin1_isupper n = ((65 \<le> n \<and> n \<le> 90) \<or> (192 \<le> n \<and> n \<le> 222 \<and> n \<noteq> 215))"

definition latin1_lower_char :: "code_point \<Rightarrow> code_point" where
  "latin1_lower_char n = (if latin1_isupper n then n + 32 else n)"

definition latin1 :: unicode where
  "latin1 = \<lparr> lower_of = map latin1_lower_char,
       isalnum_of = latin1_isalnum,
       isspace_of = latin1_isspace \<rparr>"

definition slugify :: "string \<Rightarrow> string" where
  "slugify text = map char_of (slugify_with latin1 (map cp text))"

subsection \<open>The pipeline in the words of the specification\<close>

text \<open>
  The specification describes \<^verbatim>\<open>slugify\<close> as a pipeline: lower-case the input, strip
  every character outside a set of kept characters, collapse each run of whitespace,
  underscore and hyphen characters to a single hyphen, trim leading and trailing
  hyphens.  \<open>pipeline\<close> is that description, with the set of kept characters as a
  parameter; it is compared with \<open>slugify_with\<close> below.  A separator that is
  followed by another separator is dropped, the last one of a run becomes the hyphen.
\<close>

definition trim :: "ustring \<Rightarrow> ustring" where
  "trim s = rev (dropWhile hyphen (rev (dropWhile hyphen s)))"

fun collapse_runs :: "unicode \<Rightarrow> ustring \<Rightarrow> ustring" where
  "collapse_runs u [] = []"
| "collapse_runs u [c] = (if sep_char u c then [cp CHR ''-''] else [c])"
| "collapse_runs u (c # d # cs) =
     (if sep_char u c
      then (if sep_char u d then collapse_runs u (d # cs)
            else cp CHR ''-'' # collapse_runs u (d # cs))
      else c # collapse_runs u (d # cs))"

definition pipeline :: "unicode \<Rightarrow> (code_point \<Rightarrow> bool) \<Rightarrow> ustring \<Rightarrow> ustring" where
  "pipeline u keep text = trim (collapse_runs u (filter keep (lower_of u text)))"

definition spec_keep :: "code_point \<Rightarrow> bool" where
  \<comment> \<open>the set of the specification below U+0100: letters, digits, whitespace, hyphen\<close>
  "spec_keep c =
     (latin1_isalpha c \<or> latin1_isdigit c \<or> latin1_isspace c \<or> c = cp CHR ''-'')"

definition code_keep :: "unicode \<Rightarrow> code_point \<Rightarrow> bool" where
  \<comment> \<open>the set the first pattern keeps: what \<^verbatim>\<open>str.isalnum\<close> accepts (letters, digits
      and the other numeric characters), the underscore, whitespace, the hyphen\<close>
  "code_keep u c =
     (isalnum_of u c \<or> c = cp CHR ''_'' \<or> space_char u c \<or> c = cp CHR ''-'')"

fun collapsed :: "unicode \<Rightarrow> ustring \<Rightarrow> bool" where
  \<comment> \<open>every separator is a hyphen that no separator follows\<close>
  "collapsed u [] = True"
| "collapsed u [c] = (sep_char u c \<longrightarrow> hyphen c)"
| "collapsed u (c # d # cs) =
     ((sep_char u c \<longrightarrow> hyphen c \<and> \<not> sep_char u d) \<and> collapsed u (d # cs))"


section \<open>Blog records and the index\<close>

text \<open>
  \<open>blog_data\<close> is the dictionary that \<^verbatim>\<open>extract_medium_info\<close> returns and that
  \<^verbatim>\<open>main\<close> of \<^verbatim>\<open>add_blog_manual.py\<close> builds (there with the two further keys
  \<^verbatim>\<open>id\<close> and \<^verbatim>\<open>category\<close>, which \<^verbatim>\<open>add_blog_from_url.py\<close> passes as arguments).
  \<open>index_entry\<close> is one dictionary of the list in \<^verbatim>\<open>index.json\<close>.  All values
  are strings.
\<close>

record blog_data =
  bd_title :: string
  bd_excerpt :: string
  bd_content :: string
  bd_author :: string
  bd_publishedDate :: string
  bd_mediumUrl :: string

record index_entry =
  ie_id :: string
  ie_title :: string
  ie_excerpt :: string
  ie_publishedDate :: string
  ie_coverImage :: string
  ie_category :: string
  ie_mediumUrl :: string

definition index_entry_of :: "blog_data \<Rightarrow> string \<Rightarrow> string \<Rightarrow> string \<Rightarrow> index_entry" where
  \<comment> \<open>the dictionary literal of both branches of the index update\<close>
  "index_entry_of blog_data blog_id category image_path =
     \<lparr> ie_id = blog_id,
       ie_title = bd_title blog_data,
       ie_excerpt = bd_excerpt blog_data,
       ie_publishedDate = bd_publishedDate blog_data,
       ie_coverImage = image_path,
       ie_category = category,
       ie_mediumUrl = bd_mediumUrl blog_data \<rparr>"

fun replace_or_append :: "string \<Rightarrow> index_entry \<Rightarrow> index_entry list \<Rightarrow> index_entry list" where
  \<comment> \<open>the \<^verbatim>\<open>for ... else\<close> loop: the first entry with the id is replaced and the loop
      left; when the loop runs to its end the new entry is appended\<close>
  "replace_or_append blog_id new [] = [new]"
| "replace_or_append blog_id new (entry # rest) =
     (if ie_id entry = blog_id then new # rest
      else entry # replace_or_append blog_id new rest)"

definition sort_newest_first :: "index_entry list \<Rightarrow> index_entry list" where
  \<comment> \<open>\<^verbatim>\<open>index_data.sort(key=lambda x: x['publishedDate'], reverse=True)\<close>: the sort
      is stable, and with \<^verbatim>\<open>reverse=True\<close> the list is reversed before and after it\<close>
  "sort_newest_first index_data = rev (sort_key ie_publishedDate (rev index_data))"

definition update_index ::
  "blog_data \<Rightarrow> string \<Rightarrow> string \<Rightarrow> string \<Rightarrow> index_entry list \<Rightarrow> index_entry list" where
  "update_index blog_data blog_id category image_path index_data =
     sort_newest_first
       (replace_or_append blog_id (index_entry_of blog_data blog_id category image_path)
          index_data)"

fun set_cover_image :: "string \<Rightarrow> string \<Rightarrow> index_entry list \<Rightarrow> index_entry list" where
  \<comment> \<open>the loop of \<^verbatim>\<open>update_blog_image\<close> over the index\<close>
  "set_cover_image blog_id relative_image_path [] = []"
| "set_cover_image blog_id relative_image_path (entry # rest) =
     (if ie_id entry = blog_id then entry\<lparr>ie_coverImage := relative_image_path\<rparr> # rest
      else entry # set_cover_image blog_id relative_image_path rest)"

text \<open>
  The order the index is kept in, the indexes the scripts produce from an absent index
  file, and a run of upserts.
\<close>

definition newest_first :: "index_entry list \<Rightarrow> bool" where
  "newest_first index_data =
     sorted_wrt (\<lambda>a b. ie_publishedDate b \<le> ie_publishedDate a) index_data"

inductive produced :: "index_entry list \<Rightarrow> bool" where
  absent: "produced []"
| upsert: "produced index_data \<Longrightarrow>
     produced (update_index blog_data blog_id category image_path index_data)"
| image: "produced index_data \<Longrightarrow>
     produced (set_cover_image blog_id relative_image_path index_data)"

fun upsert_all ::
  "(blog_data \<times> string \<times> string \<times> string) list \<Rightarrow> index_entry list \<Rightarrow> index_entry list" where
  "upsert_all [] index_data = index_data"
| "upsert_all ((blog_data, blog_id, category, image_path) # ops) index_data =
     upsert_all ops (update_index blog_data blog_id category image_path index_data)"

text \<open>The two records of the example in the specification.\<close>

definition post_a :: blog_data where
  "post_a = \<lparr> bd_title = ''A'', bd_excerpt = ''first'', bd_content = ''text'',
      bd_author = ''me'', bd_publishedDate = ''2024-01-01'', bd_mediumUrl = [] \<rparr>"

definition post_b :: blog_data where
  "post_b = \<lparr> bd_title = ''B'', bd_excerpt = ''second'', bd_content = ''text'',
      bd_author = ''me'', bd_publishedDate = ''2024-06-01'', bd_mediumUrl = [] \<rparr>"

section \<open>The file system the scripts work on\<close>

text \<open>
  The scripts reach the file system through \<^verbatim>\<open>os\<close>, \<^verbatim>\<open>os.path\<close>, \<^verbatim>\<open>shutil\<close>,
  \<^verbatim>\<open>open\<close> and \<^verbatim>\<open>json\<close>.  The model is a store: the directories and the regular
  files, each under the path string that the script hands to the operating system.  Two
  path strings name the same file only when they are the same string.  The operating
  system has it so for paths in normal form (an optional leading slash, then names other
  than \<^verbatim>\<open>.\<close> and \<^verbatim>\<open>..\<close> with single slashes between them) as long as no link
  is involved; \<open>normal_store\<close> says that a store holds its files and directories
  under such paths.  The order of
  the two lists stands for the order in which the operating system lists a directory.  A
  JSON file is held as the value \<^verbatim>\<open>json.load\<close> returns for it; any other file is
  a byte string that \<^verbatim>\<open>json.load\<close> rejects.  What \<^verbatim>\<open>print\<close> writes is collected in
  \<open>stdout\<close>.
\<close>

type_synonym path = string

record blog_json =
  bj_id :: string
  bj_title :: string
  bj_excerpt :: string
  bj_content :: string
  bj_author :: string
  bj_publishedDate :: string
  bj_readTime :: string
  bj_tags :: "string list"
  bj_mediumUrl :: string
  bj_image :: string
  bj_category :: string

datatype content =
    Bytes string
  | BlogJson blog_json
  | IndexJson "index_entry list"

record world =
  directories :: "path list"
  files :: "(path \<times> content) list"
  stdout :: "string list"

datatype error =
    NameError
  | FileNotFoundError
  | FileExistsError
  | IsADirectoryError
  | NotADirectoryError
  | SameFileError
  | JSONDecodeError
  | TypeError
  | AttributeError

subsection \<open>Paths\<close>

definition join :: "path \<Rightarrow> path \<Rightarrow> path" where
  \<comment> \<open>\<^verbatim>\<open>os.path.join(a, b)\<close> of \<^verbatim>\<open>posixpath\<close>\<close>
  "join a b =
     (if b \<noteq> [] \<and> hd b = CHR ''/'' then b
      else if a = [] \<or> last a = CHR ''/'' then a @ b
      else a @ CHR ''/'' # b)"

definition basename :: "path \<Rightarrow> string" where
  \<comment> \<open>\<^verbatim>\<open>os.path.basename(p)\<close>: what follows the last slash\<close>
  "basename p = rev (takeWhile (\<lambda>c. c \<noteq> CHR ''/'') (rev p))"

definition endswith :: "string \<Rightarrow> string \<Rightarrow> bool" where
  "endswith s suffix = (take (length suffix) (rev s) = rev suffix)"

definition dir_part :: "path \<Rightarrow> path" where
  \<comment> \<open>the path up to its last slash, the slash included\<close>
  "dir_part p = rev (dropWhile (\<lambda>c. c \<noteq> CHR ''/'') (rev p))"

definition dirname :: "path \<Rightarrow> path" where
  \<comment> \<open>\<^verbatim>\<open>os.path.dirname(p)\<close>: the part up to the last slash, without its trailing
      slashes unless it consists of slashes\<close>
  "dirname p =
     (let head = dir_part p
      in if \<exists>c\<in>set head. c \<noteq> CHR ''/''
         then rev (dropWhile (\<lambda>c. c = CHR ''/'') (rev head)) else head)"




subsection \<open>Files and directories\<close>

definition isdir :: "world \<Rightarrow> path \<Rightarrow> bool" where
  "isdir w p = (p \<in> set (directories w))"

definition isfile :: "world \<Rightarrow> path \<Rightarrow> bool" where
  "isfile w p = (map_of (files w) p \<noteq> None)"

definition exists_path :: "world \<Rightarrow> path \<Rightarrow> bool" where
  \<comment> \<open>\<^verbatim>\<open>os.path.exists\<close>\<close>
  "exists_path w p = (isdir w p \<or> isfile w p)"

fun put :: "path \<Rightarrow> content \<Rightarrow> (path \<times> content) list \<Rightarrow> (path \<times> content) list" where
  \<comment> \<open>an existing file keeps its place in the listing, a new one comes last\<close>
  "put p c [] = [(p, c)]"
| "put p c ((q, d) # rest) = (if q = p then (p, c) # rest else (q, d) # put p c rest)"

definition read_file :: "world \<Rightarrow> path \<Rightarrow> error + content" where
  \<comment> \<open>\<^verbatim>\<open>open(p, 'r')\<close> or \<^verbatim>\<open>open(p, 'rb')\<close> and reading the whole file\<close>
  "read_file w p =
     (case map_of (files w) p of
        Some c \<Rightarrow> Inr c
      | None \<Rightarrow> Inl (if isdir w p then IsADirectoryError else FileNotFoundError))"

definition ancestors :: "path \<Rightarrow> path list" where
  \<comment> \<open>the directories on the way to a path: every prefix that a slash follows and that
      does not end with one, and the path itself\<close>
  "ancestors name =
     [take i name. i \<leftarrow> [1..<length name],
        name ! i = CHR ''/'' \<and> name ! (i - 1) \<noteq> CHR ''/''] @ [name]"

definition parent_is_dir :: "world \<Rightarrow> path \<Rightarrow> bool" where
  \<comment> \<open>the directory a file is created in is there: it is the working directory or the
      root, which always are, or the store has it, under the path as it is written or
      without the trailing slash\<close>
  "parent_is_dir w p =
     (set (dir_part p) \<subseteq> {CHR ''/''} \<or> isdir w (dir_part p) \<or> isdir w (dirname p))"

definition write_file :: "world \<Rightarrow> path \<Rightarrow> content \<Rightarrow> error + world" where
  \<comment> \<open>\<^verbatim>\<open>open(p, 'w')\<close> or \<^verbatim>\<open>open(p, 'wb')\<close> and writing the whole file.  Opening
      fails on the empty path, on a directory, when a regular file stands on the way
      to the file, and when the directory the file is to be created in is missing\<close>
  "write_file w p c =
     (if p = [] then Inl FileNotFoundError
      else if isdir w p then Inl IsADirectoryError
      else if parent_is_dir w p then Inr (w\<lparr>files := put p c (files w)\<rparr>)
      else if \<exists>d\<in>set (ancestors (dirname p)). isfile w d then Inl NotADirectoryError
      else Inl FileNotFoundError)"


definition makedirs :: "world \<Rightarrow> path \<Rightarrow> error + world" where
  \<comment> \<open>\<^verbatim>\<open>os.makedirs(name, exist_ok=True)\<close>: the leaf and every missing directory on
      the way to it are created; a regular file on the way is an error\<close>
  "makedirs w name =
     (if isfile w name then Inl FileExistsError
      else if \<exists>d\<in>set (ancestors name). isfile w d then Inl NotADirectoryError
      else Inr (w\<lparr>directories :=
             directories w @ filter (\<lambda>d. \<not> isdir w d) (ancestors name)\<rparr>))"

definition child_name :: "path \<Rightarrow> path \<Rightarrow> string option" where
  \<comment> \<open>the name under which \<open>p\<close> is listed in directory \<open>root\<close>, if it is\<close>
  "child_name root p =
     (let base = join root [];
          name = drop (length base) p
      in if take (length base) p = base \<and> name \<noteq> [] \<and> CHR ''/'' \<notin> set name
         then Some name else None)"

definition dirnames :: "world \<Rightarrow> path \<Rightarrow> string list" where
  "dirnames w root = List.map_filter (child_name root) (directories w)"

definition filenames :: "world \<Rightarrow> path \<Rightarrow> string list" where
  "filenames w root = List.map_filter (child_name root) (map fst (files w))"

text \<open>
  \<^verbatim>\<open>os.walk\<close> descends into the listed subdirectories; each of them has a longer
  path than the directory it is listed in, which bounds the descent.
\<close>

function os_walk :: "world \<Rightarrow> path \<Rightarrow> (path \<times> string list \<times> string list) list" where
  \<comment> \<open>\<^verbatim>\<open>os.walk(top)\<close>, top-down: a directory before its subdirectories; a start
      that is no directory yields nothing\<close>
  "os_walk w start =
     (if isdir w start
      then (start, dirnames w start, filenames w start)
             # concat (map (\<lambda>name. os_walk w (join start name)) (dirnames w start))
      else [])"
  by pat_completeness auto
termination
proof (relation
    "measure (\<lambda>(w, start). length (filter (\<lambda>d. length start < length d) (directories w)))")
  show "wf (measure (\<lambda>(w, start).
      length (filter (\<lambda>d. length start < length d) (directories w))))"
    by simp
next
  fix w :: world and start name :: path
  assume "isdir w start" and "name \<in> set (dirnames w start)"
  then obtain d where d: "d \<in> set (directories w)" and c: "child_name start d = Some name"
    by (auto simp: dirnames_def map_filter_def)
  define base where "base = join start []"
  from c have t: "take (length base) d = base" and n: "name = drop (length base) d"
    and ne: "name \<noteq> []" and sl: "CHR ''/'' \<notin> set name"
    by (auto simp: child_name_def Let_def base_def split: if_splits)
  have p: "d = base @ name"
    using t n by (metis append_take_drop_id)
  have "hd name \<noteq> CHR ''/''"
    using ne sl by (cases name) auto
  then have j: "join start name = d"
    using ne p by (auto simp: join_def base_def)
  have "length start \<le> length base"
    by (simp add: base_def join_def)
  moreover have "0 < length name"
    using ne by simp
  moreover have "length d = length base + length name"
    unfolding p by simp
  ultimately have l: "length start < length d"
    by linarith
  have "filter (\<lambda>e. length d < length e) (directories w)
      = filter (\<lambda>e. length d < length e)
          (filter (\<lambda>e. length start < length e) (directories w))"
    using l by (auto intro: filter_cong)
  moreover have "length (filter (\<lambda>e. length d < length e)
        (filter (\<lambda>e. length start < length e) (directories w)))
      < length (filter (\<lambda>e. length start < length e) (directories w))"
    by (rule length_filter_less [of d]) (use d l in auto)
  ultimately show "((w, join start name), (w, start))
      \<in> measure (\<lambda>(w, start).
          length (filter (\<lambda>d. length start < length d) (directories w)))"
    by (simp add: j)
qed

declare os_walk.simps [simp del]

section \<open>The upsert: \<^verbatim>\<open>create_blog_structure\<close>\<close>

text \<open>
  \<^verbatim>\<open>add_blog_from_url.py\<close> and \<^verbatim>\<open>add_blog_manual.py\<close> hold the same function body;
  the first takes the id and the category as optional arguments and fills in defaults,
  the second reads them from the dictionary.  \<open>create_blog_structure\<close> is the
  common body with the id and the category resolved.  \<open>script_dir\<close> stands for
  \<^verbatim>\<open>os.path.dirname(os.path.abspath(__file__))\<close>.  The function returns the world it
  leaves behind and either the exception it raised or the value it returned.
\<close>

fun first_svg :: "path \<Rightarrow> string list \<Rightarrow> path option" where
  \<comment> \<open>the inner loop: the first file of the directory that ends with \<^verbatim>\<open>.svg\<close>\<close>
  "first_svg root [] = None"
| "first_svg root (file # rest) =
     (if endswith file ''.svg'' then Some (join root file) else first_svg root rest)"

fun find_source_image :: "(path \<times> string list \<times> string list) list \<Rightarrow> path option" where
  \<comment> \<open>the outer loop over \<^verbatim>\<open>os.walk\<close>; a path that was found is a non-empty string,
      so \<^verbatim>\<open>if source_image\<close> holds exactly when one was found\<close>
  "find_source_image [] = None"
| "find_source_image ((root, dirs, file_names) # rest) =
     (case first_svg root file_names of
        Some source_image \<Rightarrow> Some source_image
      | None \<Rightarrow> find_source_image rest)"

definition copy_image :: "world \<Rightarrow> path \<Rightarrow> path \<Rightarrow> error + world" where
  \<comment> \<open>the two nested \<^verbatim>\<open>with open\<close>: the source is opened, the destination is
      opened and thereby emptied, then the source is read and written\<close>
  "copy_image w source_image dest =
     (case read_file w source_image of
        Inl e \<Rightarrow> Inl e
      | Inr opened \<Rightarrow>
          (case write_file w dest (Bytes []) of
             Inl e \<Rightarrow> Inl e
           | Inr w1 \<Rightarrow>
               (case read_file w1 source_image of
                  Inl e \<Rightarrow> Inl e
                | Inr data \<Rightarrow> write_file w1 dest data)))"

definition digit_char :: "nat \<Rightarrow> char" where
  "digit_char d = char_of (48 + d)"

function str_nat :: "nat \<Rightarrow> string" where
  \<comment> \<open>how an f-string formats a non-negative \<^verbatim>\<open>int\<close>: its decimal digits\<close>
  "str_nat n = (if n < 10 then [digit_char n] else str_nat (n div 10) @ [digit_char (n mod 10)])"
  by pat_completeness auto
termination
  by (relation "measure id") auto

definition read_time :: "string \<Rightarrow> string" where
  \<comment> \<open>\<^verbatim>\<open>f"{max(1, len(blog_data['content']) // 1000)} min read"\<close>\<close>
  "read_time text = str_nat (max 1 (length text div 1000)) @ '' min read''"

definition blog_json_of :: "blog_data \<Rightarrow> string \<Rightarrow> string \<Rightarrow> string \<Rightarrow> blog_json" where
  "blog_json_of blog_data blog_id category image_path =
     \<lparr> bj_id = blog_id,
       bj_title = bd_title blog_data,
       bj_excerpt = bd_excerpt blog_data,
       bj_content = bd_content blog_data,
       bj_author = bd_author blog_data,
       bj_publishedDate = bd_publishedDate blog_data,
       bj_readTime = read_time (bd_content blog_data),
       bj_tags = [category, ''AWS''],
       bj_mediumUrl = bd_mediumUrl blog_data,
       bj_image = image_path,
       bj_category = category \<rparr>"

definition load_index :: "world \<Rightarrow> path \<Rightarrow> error + index_entry list" where
  \<comment> \<open>the index the loop can work on: \<^verbatim>\<open>json.load\<close> rejects a file that is no JSON,
      and on a JSON object the loop meets its keys, which have no \<^verbatim>\<open>get\<close>\<close>
  "load_index w index_path =
     (case read_file w index_path of
        Inl e \<Rightarrow> Inl e
      | Inr (IndexJson index_data) \<Rightarrow> Inr index_data
      | Inr (BlogJson obj) \<Rightarrow> Inl AttributeError
      | Inr (Bytes data) \<Rightarrow> Inl JSONDecodeError)"

definition blog_dir_of :: "path \<Rightarrow> string \<Rightarrow> path" where
  \<comment> \<open>\<^verbatim>\<open>os.path.join(blogs_dir, 'allBlogs', blog_id)\<close>\<close>
  "blog_dir_of script_dir blog_id = join (join (join script_dir ''Blogs'') ''allBlogs'') blog_id"

definition index_path_of :: "path \<Rightarrow> path" where
  "index_path_of script_dir = join (join script_dir ''Blogs'') ''index.json''"

definition image_path_of :: "string \<Rightarrow> string \<Rightarrow> string" where
  \<comment> \<open>\<^verbatim>\<open>f"allBlogs/{blog_id}/{image_filename}"\<close> with the file name of the category\<close>
  "image_path_of blog_id category = ''allBlogs/'' @ blog_id @ ''/'' @ slugify category @ ''.svg''"

definition place_image :: "path \<Rightarrow> world \<Rightarrow> string \<Rightarrow> string \<Rightarrow> error + world" where
  \<comment> \<open>find a suitable image from the existing categories, copy it if found\<close>
  "place_image script_dir w blog_id category =
     (case find_source_image (os_walk w (join (join script_dir ''Blogs'') ''allBlogs'')) of
        None \<Rightarrow> Inr w
      | Some source_image \<Rightarrow>
          copy_image w source_image
            (join (blog_dir_of script_dir blog_id) (slugify category @ ''.svg'')))"

definition write_index ::
  "path \<Rightarrow> world \<Rightarrow> blog_data \<Rightarrow> string \<Rightarrow> string \<Rightarrow> world \<times> (error + string)" where
  \<comment> \<open>update \<^verbatim>\<open>index.json\<close> and return the id\<close>
  "write_index script_dir w blog_data blog_id category =
     (case (if exists_path w (index_path_of script_dir)
            then load_index w (index_path_of script_dir) else Inr []) of
        Inl e \<Rightarrow> (w, Inl e)
      | Inr index_data \<Rightarrow>
          (case write_file w (index_path_of script_dir)
                  (IndexJson (update_index blog_data blog_id category
                     (image_path_of blog_id category) index_data)) of
             Inl e \<Rightarrow> (w, Inl e)
           | Inr w' \<Rightarrow> (w', Inr blog_id)))"

definition create_blog_structure ::
  "path \<Rightarrow> world \<Rightarrow> blog_data \<Rightarrow> string \<Rightarrow> string \<Rightarrow> world \<times> (error + string)" where
  "create_blog_structure script_dir w blog_data blog_id category =
     (case makedirs w (blog_dir_of script_dir blog_id) of
        Inl e \<Rightarrow> (w, Inl e)
      | Inr w1 \<Rightarrow>
          (case place_image script_dir w1 blog_id category of
             Inl e \<Rightarrow> (w1, Inl e)
           | Inr w2 \<Rightarrow>
               (case write_file w2 (join (blog_dir_of script_dir blog_id) ''blog.json'')
                       (BlogJson (blog_json_of blog_data blog_id category
                          (image_path_of blog_id category))) of
                  Inl e \<Rightarrow> (w2, Inl e)
                | Inr w3 \<Rightarrow> write_index script_dir w3 blog_data blog_id category)))"





section \<open>Attaching an image: \<^verbatim>\<open>update_blog_image\<close>\<close>

definition print :: "world \<Rightarrow> string \<Rightarrow> world" where
  "print w line = w\<lparr>stdout := stdout w @ [line]\<rparr>"

definition quoted :: "string \<Rightarrow> string" where
  "quoted s = CHR 0x27 # s @ [CHR 0x27]"

definition copy2 :: "world \<Rightarrow> path \<Rightarrow> path \<Rightarrow> error + world" where
  \<comment> \<open>\<^verbatim>\<open>shutil.copy2(src, dst)\<close>: into \<open>dst\<close> when that is a directory; refuses to
      copy a file onto itself\<close>
  "copy2 w src dst =
     (let target = (if isdir w dst then join dst (basename src) else dst)
      in if src = target \<and> exists_path w src then Inl SameFileError
         else (case read_file w src of
                 Inl e \<Rightarrow> Inl e
               | Inr data \<Rightarrow> write_file w target data))"

definition update_blog_json ::
  "world \<Rightarrow> string \<Rightarrow> path \<Rightarrow> string \<Rightarrow> world \<times> (error + string option)" where
  \<comment> \<open>update \<^verbatim>\<open>blog.json\<close>; the result is the binding of \<^verbatim>\<open>relative_image_path\<close>
      afterwards, \<open>None\<close> while the name is unbound\<close>
  "update_blog_json w blog_id blog_dir image_filename =
     (let blog_json_path = join blog_dir ''blog.json''
      in if exists_path w blog_json_path
         then (case read_file w blog_json_path of
                 Inl e \<Rightarrow> (w, Inl e)
               | Inr (Bytes data) \<Rightarrow> (w, Inl JSONDecodeError)
               | Inr (IndexJson items) \<Rightarrow> (w, Inl TypeError)
               | Inr (BlogJson blog_data) \<Rightarrow>
                   (let relative_image_path = ''allBlogs/'' @ blog_id @ ''/'' @ image_filename
                    in case write_file w blog_json_path
                              (BlogJson (blog_data\<lparr>bj_image := relative_image_path\<rparr>)) of
                         Inl e \<Rightarrow> (w, Inl e)
                       | Inr w' \<Rightarrow> (w', Inr (Some relative_image_path))))
         else (w, Inr None))"

fun cover_loop :: "string \<Rightarrow> string option \<Rightarrow> index_entry list \<Rightarrow> error + index_entry list" where
  \<comment> \<open>find and update the blog entry; reading the unbound name raises\<close>
  "cover_loop blog_id relative_image_path [] = Inr []"
| "cover_loop blog_id relative_image_path (entry # rest) =
     (if ie_id entry = blog_id
      then (case relative_image_path of
              None \<Rightarrow> Inl NameError
            | Some p \<Rightarrow> Inr (entry\<lparr>ie_coverImage := p\<rparr> # rest))
      else (case cover_loop blog_id relative_image_path rest of
              Inl e \<Rightarrow> Inl e
            | Inr rest' \<Rightarrow> Inr (entry # rest')))"

definition update_index_json ::
  "path \<Rightarrow> world \<Rightarrow> string \<Rightarrow> string option \<Rightarrow> world \<times> (error + unit)" where
  \<comment> \<open>update \<^verbatim>\<open>index.json\<close>\<close>
  "update_index_json script_dir w blog_id relative_image_path =
     (let index_path = index_path_of script_dir
      in if exists_path w index_path
         then (case load_index w index_path of
                 Inl e \<Rightarrow> (w, Inl e)
               | Inr index_data \<Rightarrow>
                   (case cover_loop blog_id relative_image_path index_data of
                      Inl e \<Rightarrow> (w, Inl e)
                    | Inr index_data' \<Rightarrow>
                        (case write_file w index_path (IndexJson index_data') of
                           Inl e \<Rightarrow> (w, Inl e)
                         | Inr w' \<Rightarrow> (w', Inr ()))))
         else (w, Inr ()))"

definition update_blog_image ::
  "path \<Rightarrow> world \<Rightarrow> string \<Rightarrow> path \<Rightarrow> world \<times> (error + bool)" where
  "update_blog_image script_dir w blog_id image_path =
     (let blog_dir = blog_dir_of script_dir blog_id
      in if \<not> exists_path w blog_dir
         then (print w (''Error: Blog with ID '' @ quoted blog_id @ '' not found.''), Inr False)
         else if \<not> exists_path w image_path
         then (print w (''Error: Image file '' @ quoted image_path @ '' not found.''), Inr False)
         else
           (let image_filename = basename image_path;
                dest_image_path = join blog_dir image_filename
            in case copy2 w image_path dest_image_path of
                 Inl e \<Rightarrow> (w, Inl e)
               | Inr w1 \<Rightarrow>
                   (case update_blog_json w1 blog_id blog_dir image_filename of
                      (w2, Inl e) \<Rightarrow> (w2, Inl e)
                    | (w2, Inr relative_image_path) \<Rightarrow>
                        (case update_index_json script_dir w2 blog_id relative_image_path of
                           (w3, Inl e) \<Rightarrow> (w3, Inl e)
                         | (w3, Inr u) \<Rightarrow>
                             (print
                                (print w3 (''Image '' @ quoted image_filename
                                   @ '' successfully added to blog '' @ quoted blog_id))
                                (''Image path: '' @ dest_image_path),
                              Inr True)))))"

datatype exit = Exit nat | Traceback error

definition main_image :: "path \<Rightarrow> world \<Rightarrow> string \<Rightarrow> path \<Rightarrow> world \<times> exit" where
  \<comment> \<open>\<^verbatim>\<open>main\<close> of \<^verbatim>\<open>add_blog_image.py\<close> with the parsed arguments \<^verbatim>\<open>--id\<close> and
      \<^verbatim>\<open>--image\<close>; an exception that nothing catches ends the script with a traceback\<close>
  "main_image script_dir w blog_id image_path =
     (case update_blog_image script_dir w blog_id image_path of
        (w', Inl e) \<Rightarrow> (w', Traceback e)
      | (w', Inr True) \<Rightarrow> (print w' ''Image update completed successfully.'', Exit 0)
      | (w', Inr False) \<Rightarrow> (w', Exit 1))"

section \<open>The paths an upsert writes\<close>


definition metadata_path :: "path \<Rightarrow> string \<Rightarrow> path" where
  \<comment> \<open>the metadata file of a post, \<^verbatim>\<open>os.path.join(blog_dir, 'blog.json')\<close>\<close>
  "metadata_path script_dir blog_id = join (blog_dir_of script_dir blog_id) ''blog.json''"

definition image_dest :: "path \<Rightarrow> string \<Rightarrow> string \<Rightarrow> path" where
  \<comment> \<open>where the placeholder goes, \<^verbatim>\<open>os.path.join(blog_dir, image_filename)\<close>\<close>
  "image_dest script_dir blog_id category =
     join (blog_dir_of script_dir blog_id) (slugify category @ ''.svg'')"


definition index_of :: "world \<Rightarrow> path \<Rightarrow> index_entry list" where
  \<comment> \<open>the index the index file holds; no index file is the empty index\<close>
  "index_of w script_dir =
     (case map_of (files w) (index_path_of script_dir) of
        Some (IndexJson index_data) \<Rightarrow> index_data
      | _ \<Rightarrow> [])"


section \<open>Example states\<close>


definition orphaned_post :: world where
  "orphaned_post =
     \<lparr> directories = [''/repo'', ''/repo/Blogs'', ''/repo/Blogs/allBlogs'',
         ''/repo/Blogs/allBlogs/a''],
       files = [(''/repo/Blogs/index.json'',
                 IndexJson [index_entry_of post_a ''a'' ''AWS'' ''allBlogs/a/aws.svg'']),
                (''/tmp/pic.svg'', Bytes ''<svg/>'')],
       stdout = [] \<rparr>"

definition repo_without_svg :: world where
  "repo_without_svg =
     \<lparr> directories = [''/repo'', ''/repo/Blogs'', ''/repo/Blogs/allBlogs'',
         ''/repo/Blogs/allBlogs/a''],
       files = [(''/repo/Blogs/allBlogs/a/blog.json'',
                 BlogJson (blog_json_of post_a ''a'' ''AWS'' ''allBlogs/a/aws.svg'')),
                (''/repo/Blogs/index.json'',
                 IndexJson [index_entry_of post_a ''a'' ''AWS'' ''allBlogs/a/aws.svg'']),
                (''/repo/logo.svg'', Bytes ''<svg/>'')],
       stdout = [] \<rparr>"

definition duplicated_index :: world where
  "duplicated_index =
     \<lparr> directories = [''/repo'', ''/repo/Blogs'', ''/repo/Blogs/allBlogs'',
         ''/repo/Blogs/allBlogs/a''],
       files = [(''/repo/Blogs/index.json'',
                 IndexJson [index_entry_of post_a ''a'' ''AWS'' ''allBlogs/a/aws.svg'',
                            index_entry_of post_a ''a'' ''AWS'' ''allBlogs/a/aws.svg''])],
       stdout = [] \<rparr>"


section \<open>Properties of slug generation\<close>

lemma cp_hyphen: "cp CHR ''-'' = 45"
  by (simp add: cp_def)

lemma cp_newline: "cp CHR 0x0A = 10"
  by (simp add: cp_def)

lemma cp_lt: "cp c < 256"
  by (simp add: cp_def)

lemma char_of_cp: "char_of (cp c) = c"
  by (simp add: cp_def)

lemma cp_char_of: "n < 256 \<Longrightarrow> cp (char_of n) = n"
  by (simp add: cp_def)

lemma map_cp_char_of: "\<forall>n\<in>set ns. n < 256 \<Longrightarrow> map cp (map char_of ns) = ns"
  by (induction ns) (simp_all add: cp_char_of)

lemma sub_special_filter: "sub_special u s = filter (\<lambda>c. \<not> special_char u c) s"
  by (induction s) simp_all

lemma sub_special_fixed: "\<forall>c\<in>set s. \<not> special_char u c \<Longrightarrow> sub_special u s = s"
  by (simp add: sub_special_filter)

lemma set_sub_seps:
  "set (sub_seps u s) \<subseteq> insert (cp CHR ''-'') {c \<in> set s. \<not> sep_char u c}"
proof (induction u s rule: sub_seps.induct)
  case (1 u)
  show ?case by simp
next
  case (2 u c cs)
  show ?case
  proof (cases "sep_char u c")
    case True
    with 2 have "set (sub_seps u (dropWhile (sep_char u) cs))
        \<subseteq> insert (cp CHR ''-'') {c \<in> set (dropWhile (sep_char u) cs). \<not> sep_char u c}"
      by simp
    moreover have "set (dropWhile (sep_char u) cs) \<subseteq> set cs"
      by (simp add: set_dropWhileD subsetI)
    ultimately show ?thesis using True by auto
  next
    case False
    with 2 show ?thesis by auto
  qed
qed

lemma collapsed_Cons:
  "collapsed u (c # cs) \<longleftrightarrow>
     (sep_char u c \<longrightarrow> hyphen c \<and> (cs \<noteq> [] \<longrightarrow> \<not> sep_char u (hd cs))) \<and> collapsed u cs"
  by (cases cs) auto

lemma hd_sub_seps:
  "s \<noteq> [] \<Longrightarrow> \<not> sep_char u (hd s) \<Longrightarrow> sub_seps u s \<noteq> [] \<and> hd (sub_seps u s) = hd s"
  by (cases s) auto

lemma sub_seps_Nil: "sub_seps u s = [] \<longleftrightarrow> s = []"
  by (cases s) auto

lemma collapsed_sub_seps: "collapsed u (sub_seps u s)"
proof (induction u s rule: sub_seps.induct)
  case (1 u)
  show ?case by simp
next
  case (2 u c cs)
  show ?case
  proof (cases "sep_char u c")
    case True
    let ?r = "dropWhile (sep_char u) cs"
    have "?r \<noteq> [] \<Longrightarrow> \<not> sep_char u (hd ?r)"
      using hd_dropWhile by blast
    then have "sub_seps u ?r \<noteq> [] \<Longrightarrow> \<not> sep_char u (hd (sub_seps u ?r))"
      using hd_sub_seps [of ?r u] by (auto simp: sub_seps_Nil)
    with 2 True show ?thesis
      by (simp add: collapsed_Cons hyphen_def)
  next
    case False
    with 2 show ?thesis by (simp add: collapsed_Cons)
  qed
qed

lemma sub_seps_fixed: "collapsed u s \<Longrightarrow> sub_seps u s = s"
proof (induction u s rule: collapsed.induct)
  case (1 u)
  then show ?case by simp
next
  case (2 u c)
  then show ?case by (auto simp: hyphen_def)
next
  case (3 u c d cs)
  then show ?case by (auto simp: hyphen_def)
qed

lemma sub_tail_no_newline:
  "cp CHR 0x0A \<notin> set s \<Longrightarrow> sub_tail s = rev (dropWhile hyphen (rev s))"
proof (induction s)
  case Nil
  show ?case by simp
next
  case (Cons c cs)
  then have nl: "cp CHR 0x0A \<notin> set (dropWhile hyphen cs)"
    by (meson list.set_intros(2) set_dropWhileD)
  have e: "at_end (dropWhile hyphen cs) \<longleftrightarrow> (\<forall>x\<in>set cs. hyphen x)"
    using nl by (auto simp: at_end_def dropWhile_eq_Nil_conv)
  show ?case
  proof (cases "hyphen c \<and> (\<forall>x\<in>set cs. hyphen x)")
    case True
    then show ?thesis using e by (simp add: dropWhile_append)
  next
    case False
    then have "sub_tail (c # cs) = c # sub_tail cs" using e by auto
    also have "\<dots> = c # rev (dropWhile hyphen (rev cs))" using Cons by simp
    also have "\<dots> = rev (dropWhile hyphen (rev (c # cs)))"
      using False by (auto simp: dropWhile_append)
    finally show ?thesis .
  qed
qed

lemma sub_edges_trim: "cp CHR 0x0A \<notin> set s \<Longrightarrow> sub_edges s = trim s"
  unfolding sub_edges_def trim_def
  by (rule sub_tail_no_newline) (meson set_dropWhileD)

lemma set_trim: "set (trim s) \<subseteq> set s"
  unfolding trim_def by (metis set_dropWhileD set_rev subsetI)

lemma prefix_dropWhile_rev: "s = rev (dropWhile P (rev s)) @ rev (takeWhile P (rev s))"
  by (metis rev_append rev_rev_ident takeWhile_dropWhile_id)

lemma trim_idem: "trim (trim s) = trim s"
proof -
  define v where "v = dropWhile hyphen s"
  define w where "w = rev (dropWhile hyphen (rev v))"
  have v: "v = [] \<or> \<not> hyphen (hd v)"
    unfolding v_def using hd_dropWhile by blast
  have vw: "v = w @ rev (takeWhile hyphen (rev v))"
    unfolding w_def by (rule prefix_dropWhile_rev)
  have "w = [] \<or> \<not> hyphen (hd w)"
  proof (cases "w = []")
    case False
    then have "hd w = hd v" using vw by (metis hd_append2)
    moreover have "v \<noteq> []" using False vw by auto
    ultimately show ?thesis using v by simp
  qed simp
  then have "dropWhile hyphen w = w"
    by (cases w) auto
  moreover have "rev (dropWhile hyphen (rev w)) = w"
    by (simp add: w_def)
  ultimately show ?thesis
    by (simp add: trim_def v_def w_def)
qed

lemma collapsed_append: "collapsed u (xs @ ys) \<Longrightarrow> collapsed u xs \<and> collapsed u ys"
proof (induction u xs rule: collapsed.induct)
  case (1 u)
  then show ?case by simp
next
  case (2 u c)
  then show ?case by (cases ys) auto
next
  case (3 u c d cs)
  then show ?case by auto
qed

lemma collapsed_trim: "collapsed u s \<Longrightarrow> collapsed u (trim s)"
proof -
  assume c: "collapsed u s"
  have "collapsed u (dropWhile hyphen s)"
    using c collapsed_append [of u "takeWhile hyphen s" "dropWhile hyphen s"] by simp
  then show ?thesis
    unfolding trim_def
    using collapsed_append prefix_dropWhile_rev by metis
qed

lemma sub_seps_collapse_runs: "sub_seps u s = collapse_runs u s"
proof (induction u s rule: collapse_runs.induct)
  case (1 u)
  show ?case by simp
next
  case (2 u c)
  show ?case by simp
next
  case (3 u c d cs)
  show ?case
  proof (cases "sep_char u c")
    case False
    with 3 show ?thesis by simp
  next
    case c: True
    show ?thesis
    proof (cases "sep_char u d")
      case True
      with 3 c have "collapse_runs u (c # d # cs) = sub_seps u (d # cs)" by simp
      also have "\<dots> = cp CHR ''-'' # sub_seps u (dropWhile (sep_char u) cs)"
        using True by simp
      also have "\<dots> = sub_seps u (c # d # cs)"
        using True c by simp
      finally show ?thesis by simp
    next
      case False
      with 3 c show ?thesis by simp
    qed
  qed
qed

lemma special_hyphen: "\<not> special_char u (cp CHR ''-'')"
  by (simp add: special_char_def)

lemma sep_newline: "sep_char u (cp CHR 0x0A) \<and> \<not> hyphen (cp CHR 0x0A)"
  by (simp add: sep_char_def space_char_def ascii_space_def hyphen_def cp_def)

lemma chars_collapsed_stage:
  "set (sub_seps u (sub_special u s))
     \<subseteq> insert (cp CHR ''-'') {c \<in> set s. \<not> sep_char u c \<and> \<not> special_char u c}"
  using set_sub_seps [of u "sub_special u s"]
  by (auto simp: sub_special_filter)

lemma no_newline_collapsed_stage: "cp CHR 0x0A \<notin> set (sub_seps u (sub_special u s))"
  using chars_collapsed_stage [of u s] sep_newline [of u]
  by (auto simp: hyphen_def)

lemma slugify_with_trim:
  "slugify_with u s = trim (sub_seps u (sub_special u (lower_of u s)))"
  by (simp add: slugify_with_def sub_edges_trim no_newline_collapsed_stage)

lemma slugify_with_chars:
  "set (slugify_with u s)
     \<subseteq> insert (cp CHR ''-'')
          {c \<in> set (lower_of u s). \<not> sep_char u c \<and> \<not> special_char u c}"
  using chars_collapsed_stage [of u "lower_of u s"]
    set_trim [of "sub_seps u (sub_special u (lower_of u s))"]
  unfolding slugify_with_trim by blast

lemma slugify_with_not_special:
  assumes "c \<in> set (slugify_with u s)"
  shows "\<not> special_char u c"
proof (cases "c = cp CHR ''-''")
  case True
  then show ?thesis by (simp only: special_hyphen not_False_eq_True)
next
  case False
  with assms slugify_with_chars [of u s] show ?thesis by blast
qed

lemma slugify_with_no_newline: "cp CHR 0x0A \<notin> set (slugify_with u s)"
  using slugify_with_chars [of u s] sep_newline [of u]
  by (auto simp: hyphen_def)

lemma slugify_with_lowered:
  "set (slugify_with u s) \<subseteq> insert (cp CHR ''-'') (set (lower_of u s))"
  using slugify_with_chars [of u s] by blast

lemma slugify_with_fixed:
  \<comment> \<open>all but the first step of \<open>slugify_with\<close> leave a slug as it is\<close>
  "sub_edges (sub_seps u (sub_special u (slugify_with u x))) = slugify_with u x"
proof -
  define t where "t = slugify_with u x"
  have "sub_special u t = t"
    unfolding t_def by (rule sub_special_fixed) (blast dest: slugify_with_not_special)
  moreover have "collapsed u t"
    unfolding t_def slugify_with_trim by (rule collapsed_trim) (rule collapsed_sub_seps)
  then have "sub_seps u t = t"
    by (rule sub_seps_fixed)
  moreover have "cp CHR 0x0A \<notin> set t"
    unfolding t_def by (rule slugify_with_no_newline)
  then have "sub_edges t = trim t"
    by (rule sub_edges_trim)
  moreover have "trim t = t"
    unfolding t_def slugify_with_trim by (rule trim_idem)
  ultimately show ?thesis
    by (simp add: t_def)
qed

lemma slugify_with_stable:
  assumes "\<forall>y t. set t \<subseteq> insert (cp CHR ''-'') (set (lower_of u y)) \<longrightarrow> lower_of u t = t"
  shows "slugify_with u (slugify_with u x) = slugify_with u x"
proof -
  have "lower_of u (slugify_with u x) = slugify_with u x"
    using assms slugify_with_lowered [of u x] by blast
  then have "slugify_with u (slugify_with u x)
      = sub_edges (sub_seps u (sub_special u (slugify_with u x)))"
    by (simp add: slugify_with_def)
  then show ?thesis
    by (simp only: slugify_with_fixed)
qed

lemma not_special_code_keep: "(\<not> special_char u c) = code_keep u c"
  by (auto simp: special_char_def code_keep_def word_char_def)

lemma slugify_with_pipeline: "slugify_with u x = pipeline u (code_keep u) x"
  by (simp add: slugify_with_trim pipeline_def sub_seps_collapse_runs sub_special_filter
      not_special_code_keep)

subsection \<open>The rows below U+0100\<close>

lemma latin1_lower_char_twice: "latin1_lower_char (latin1_lower_char n) = latin1_lower_char n"
  by (auto simp: latin1_lower_char_def latin1_isupper_def)

lemma latin1_lower_char_hyphen: "latin1_lower_char (cp CHR ''-'') = cp CHR ''-''"
  by (simp add: latin1_lower_char_def latin1_isupper_def cp_def)

lemma latin1_lower_char_lt: "n < 256 \<Longrightarrow> latin1_lower_char n < 256"
  by (auto simp: latin1_lower_char_def latin1_isupper_def)

lemma latin1_lower_stable:
  "\<forall>y t. set t \<subseteq> insert (cp CHR ''-'') (set (lower_of latin1 y)) \<longrightarrow> lower_of latin1 t = t"
proof (intro allI impI)
  fix y t
  assume s: "set t \<subseteq> insert (cp CHR ''-'') (set (lower_of latin1 y))"
  have "latin1_lower_char c = c" if "c \<in> set t" for c
  proof (cases "c = cp CHR ''-''")
    case True
    then show ?thesis by (simp only: latin1_lower_char_hyphen)
  next
    case False
    with s that obtain n where "c = latin1_lower_char n"
      by (auto simp: latin1_def)
    then show ?thesis by (simp only: latin1_lower_char_twice)
  qed
  then have "map latin1_lower_char t = t"
    by (simp add: map_idI)
  then show "lower_of latin1 t = t"
    by (simp add: latin1_def)
qed

lemma slugify_latin1_lt: "\<forall>n\<in>set (slugify_with latin1 (map cp s)). n < 256"
proof
  fix n
  assume "n \<in> set (slugify_with latin1 (map cp s))"
  with slugify_with_lowered [of latin1 "map cp s"]
  have "n = cp CHR ''-'' \<or> n \<in> set (lower_of latin1 (map cp s))"
    by blast
  then show "n < 256"
  proof
    assume "n = cp CHR ''-''"
    then show ?thesis by (simp only: cp_lt)
  next
    assume "n \<in> set (lower_of latin1 (map cp s))"
    then obtain c where "n = latin1_lower_char (cp c)"
      by (auto simp: latin1_def)
    then show ?thesis by (simp only: latin1_lower_char_lt cp_lt)
  qed
qed

lemma cp_slugify: "map cp (slugify s) = slugify_with latin1 (map cp s)"
  unfolding slugify_def by (rule map_cp_char_of) (rule slugify_latin1_lt)

lemma slugify_stable: "slugify (slugify s) = slugify s"
proof -
  have "slugify (slugify s) = map char_of (slugify_with latin1 (map cp (slugify s)))"
    by (simp only: slugify_def)
  also have "\<dots> = map char_of (slugify_with latin1 (slugify_with latin1 (map cp s)))"
    by (simp only: cp_slugify)
  also have "\<dots> = map char_of (slugify_with latin1 (map cp s))"
    by (simp only: slugify_with_stable [OF latin1_lower_stable])
  finally show ?thesis
    by (simp only: slugify_def)
qed


text \<open>
  Claim C4: \<open>slugify\<close> is idempotent.  For every input string \<open>x\<close>,
  \<open>slugify (slugify x) = slugify x\<close>.  The first conjunct is the claim for the strings
  of all code points, on every runtime whose \<^verbatim>\<open>str.lower\<close> leaves a string alone that
  consists of hyphens and of characters that occur in lower-cased strings (a lower-cased
  string has no character that lower-casing would change); nothing is assumed of the
  classes \<^verbatim>\<open>\w\<close> and \<^verbatim>\<open>\s\<close> beyond the whitespace of ASCII.  The second conjunct is
  the claim, with no condition, for the strings of code points below U+0100, where the
  tables are written out.
\<close>

theorem slugify_idempotent:
  "((\<forall>y t. set t \<subseteq> insert (cp CHR ''-'') (set (lower_of u y)) \<longrightarrow> lower_of u t = t)
      \<longrightarrow> slugify_with u (slugify_with u x) = slugify_with u x)
   \<and> slugify (slugify s) = slugify s"
proof (intro conjI impI)
  assume "\<forall>y t. set t \<subseteq> insert (cp CHR ''-'') (set (lower_of u y)) \<longrightarrow> lower_of u t = t"
  then show "slugify_with u (slugify_with u x) = slugify_with u x"
    by (rule slugify_with_stable)
next
  show "slugify (slugify s) = slugify s"
    by (rule slugify_stable)
qed

theorem slugify_idempotent_witness:
  "slugify_with latin1 (slugify_with latin1 (map cp ''A  b_''))
     = slugify_with latin1 (map cp ''A  b_'')
   \<and> slugify_with latin1 (map cp ''A  b_'') = map cp ''a-b''
   \<and> slugify (slugify ''A  b_'') = slugify ''A  b_''
   \<and> slugify ''A  b_'' = ''a-b''"
proof -
  have e: "slugify_with latin1 (map cp ''A  b_'') = map cp ''a-b''"
    by code_simp
  have f: "slugify ''A  b_'' = ''a-b''"
    by code_simp
  have "slugify_with latin1 (slugify_with latin1 (map cp ''A  b_''))
      = slugify_with latin1 (map cp ''A  b_'')"
    by (rule slugify_idempotent [of latin1 "map cp ''A  b_''" "''A  b_''",
          THEN conjunct1, THEN mp, OF latin1_lower_stable])
  moreover have "slugify (slugify ''A  b_'') = slugify ''A  b_''"
    by (rule slugify_idempotent [of latin1 "map cp ''A  b_''" "''A  b_''", THEN conjunct2])
  ultimately show ?thesis
    using e f by (intro conjI)
qed

text \<open>
  Claim C5, as amended: \<open>slugify\<close> is a function of its input alone and computes
  this pipeline on every input string: lower-case the input, strip every character outside
  the set of the alphanumeric characters (those that \<^verbatim>\<open>str.isalnum\<close> accepts: letters,
  digits and the other numeric characters, such as the fraction U+00BD), the underscore,
  whitespace and the hyphen, collapse each run of whitespace, underscore and hyphen
  characters to a single hyphen, trim leading and trailing hyphens.  The first conjunct is
  the statement for the strings of all code points on every runtime, the second one for
  the strings of code points below U+0100.
\<close>

theorem slugify_pipeline:
  "slugify_with u x = pipeline u (code_keep u) x
   \<and> slugify s = map char_of (pipeline latin1 (code_keep latin1) (map cp s))"
  by (simp only: slugify_def slugify_with_pipeline simp_thms)

theorem slugify_pipeline_witness:
  "slugify ''Hello, World_2!''
     = map char_of (pipeline latin1 (code_keep latin1) (map cp ''Hello, World_2!''))
   \<and> slugify ''Hello, World_2!'' = ''hello-world-2''"
proof (rule conjI)
  show "slugify ''Hello, World_2!''
      = map char_of (pipeline latin1 (code_keep latin1) (map cp ''Hello, World_2!''))"
    by (rule slugify_pipeline [of latin1 "[]" "''Hello, World_2!''", THEN conjunct2])
  show "slugify ''Hello, World_2!'' = ''hello-world-2''"
    by code_simp
qed

text \<open>
  With the set the specification names (letters, digits, whitespace, hyphen) the pipeline
  strips the underscore of \<^verbatim>\<open>a_b\<close> and yields \<^verbatim>\<open>ab\<close>; the code keeps it for the
  second substitution, which turns it into a hyphen.  The fraction U+00BD is neither a
  letter nor a digit, so the pipeline of the specification strips it; the code keeps it,
  since \<^verbatim>\<open>\w\<close> matches it.
\<close>

theorem slugify_spec_keep_counterexample:
  "slugify ''a_b'' = ''a-b''
   \<and> map char_of (pipeline latin1 spec_keep (map cp ''a_b'')) = ''ab''
   \<and> slugify [CHR 0xBD] = [CHR 0xBD]
   \<and> map char_of (pipeline latin1 spec_keep (map cp [CHR 0xBD])) = []"
  by code_simp


section \<open>Properties of the index update\<close>

lemma sort_newest_first_sorted: "newest_first (sort_newest_first xs)"
proof -
  have "sorted (map ie_publishedDate (sort_key ie_publishedDate (rev xs)))"
    by (rule sorted_sort_key)
  then have "sorted_wrt (\<lambda>a b. ie_publishedDate a \<le> ie_publishedDate b)
      (sort_key ie_publishedDate (rev xs))"
    by (simp only: sorted_map)
  then show ?thesis
    by (simp only: newest_first_def sort_newest_first_def sorted_wrt_rev)
qed

lemma mset_sort_newest_first: "mset (sort_newest_first xs) = mset xs"
  by (simp add: sort_newest_first_def)

lemma filter_sort_newest_first:
  "filter P (sort_newest_first xs) = sort_newest_first (filter P xs)"
  by (simp add: sort_newest_first_def filter_sort flip: rev_filter)

lemma length_sort_newest_first: "length (sort_newest_first xs) = length xs"
  by (simp add: sort_newest_first_def)

lemma set_sort_newest_first: "set (sort_newest_first xs) = set xs"
  by (simp add: sort_newest_first_def)

lemma length_replace_or_append:
  "length (replace_or_append b new xs) = (if b \<in> ie_id ` set xs then length xs else Suc (length xs))"
  by (induction xs) auto


lemma filter_same_replace_or_append:
  "ie_id new = b \<Longrightarrow> distinct (map ie_id xs) \<Longrightarrow> filter (\<lambda>e. ie_id e = b) (replace_or_append b new xs) = [new]"
proof (induction xs)
  case Nil
  then show ?case by simp
next
  case (Cons x xs)
  show ?case
  proof (cases "ie_id x = b")
    case True
    with Cons.prems have "b \<notin> ie_id ` set xs" by auto
    then have "filter (\<lambda>e. ie_id e = b) xs = []"
      by (auto simp: filter_empty_conv)
    with True Cons.prems show ?thesis by simp
  next
    case False
    with Cons show ?thesis by simp
  qed
qed

lemma ids_replace_or_append:
  "ie_id new = b \<Longrightarrow> set (map ie_id (replace_or_append b new xs)) = insert b (set (map ie_id xs))"
  by (induction xs) auto

lemma distinct_replace_or_append:
  "ie_id new = b \<Longrightarrow> distinct (map ie_id xs) \<Longrightarrow> distinct (map ie_id (replace_or_append b new xs))"
proof (induction xs)
  case Nil
  then show ?case by simp
next
  case (Cons x xs)
  show ?case
  proof (cases "ie_id x = b")
    case True
    with Cons.prems show ?thesis by simp
  next
    case False
    have "set (map ie_id (replace_or_append b new xs)) = insert b (set (map ie_id xs))"
      using Cons.prems(1) by (rule ids_replace_or_append)
    with False Cons show ?thesis by auto
  qed
qed

lemma distinct_ids_sort:
  "distinct (map ie_id (sort_newest_first xs)) = distinct (map ie_id xs)"
proof -
  have "mset (map ie_id (sort_newest_first xs)) = mset (map ie_id xs)"
    by (simp add: mset_sort_newest_first)
  then show ?thesis
    by (rule mset_eq_imp_distinct_iff)
qed

lemma sort_singleton: "sort_newest_first [e] = [e]"
  by (simp add: sort_newest_first_def)


lemma ids_set_cover_image: "map ie_id (set_cover_image b p xs) = map ie_id xs"
  by (induction xs) auto

lemma ie_id_index_entry_of: "ie_id (index_entry_of bd b c p) = b"
  by (simp add: index_entry_of_def)

lemma distinct_update_index:
  "distinct (map ie_id xs) \<Longrightarrow> distinct (map ie_id (update_index bd b c p xs))"
  unfolding update_index_def distinct_ids_sort
  by (rule distinct_replace_or_append) (rule ie_id_index_entry_of)

lemma produced_distinct: "produced xs \<Longrightarrow> distinct (map ie_id xs)"
proof (induction rule: produced.induct)
  case absent
  show ?case by simp
next
  case (upsert index_data blog_data blog_id category image_path)
  then show ?case by (simp add: distinct_update_index)
next
  case (image index_data blog_id relative_image_path)
  then show ?case by (simp add: ids_set_cover_image)
qed

lemma filter_same_update_index:
  assumes "distinct (map ie_id xs)"
  shows "filter (\<lambda>e. ie_id e = b) (update_index bd b c p xs) = [index_entry_of bd b c p]"
proof -
  have "filter (\<lambda>e. ie_id e = b) (replace_or_append b (index_entry_of bd b c p) xs)
      = [index_entry_of bd b c p]"
    using ie_id_index_entry_of assms by (rule filter_same_replace_or_append)
  then show ?thesis
    by (simp add: update_index_def filter_sort_newest_first sort_singleton)
qed

lemma newest_first_update_index: "newest_first (update_index bd b c p xs)"
  by (simp add: update_index_def sort_newest_first_sorted)

lemma newest_first_upsert_all: "newest_first xs \<Longrightarrow> newest_first (upsert_all ops xs)"
proof (induction ops arbitrary: xs)
  case Nil
  then show ?case by simp
next
  case (Cons a ops)
  obtain bd b c p where a: "a = (bd, b, c, p)" by (cases a) auto
  show ?case unfolding a upsert_all.simps
    by (rule Cons.IH) (rule newest_first_update_index)
qed


lemma new_in_replace_or_append: "new \<in> set (replace_or_append b new xs)"
  by (induction xs) auto

lemma sort_newest_first_fixed:
  assumes "newest_first xs"
  shows "sort_newest_first xs = xs"
proof -
  from assms have "sorted_wrt (\<lambda>a b. ie_publishedDate a \<le> ie_publishedDate b) (rev xs)"
    by (simp only: newest_first_def sorted_wrt_rev)
  then have "sorted (map ie_publishedDate (rev xs))"
    by (simp only: sorted_map)
  then have "sort_key ie_publishedDate (rev xs) = rev xs"
    by (rule sort_key_id_if_sorted)
  then show ?thesis
    by (simp add: sort_newest_first_def)
qed

lemma replace_or_append_present:
  "distinct (map ie_id xs) \<Longrightarrow> new \<in> set xs \<Longrightarrow> ie_id new = b \<Longrightarrow>
     replace_or_append b new xs = xs"
proof (induction xs)
  case Nil
  then show ?case by simp
next
  case (Cons x xs)
  show ?case
  proof (cases "ie_id x = b")
    case True
    have "new = x"
    proof (rule ccontr)
      assume "new \<noteq> x"
      with Cons.prems(2) have "new \<in> set xs" by simp
      then have "ie_id new \<in> set (map ie_id xs)" by simp
      with Cons.prems(1,3) True show False by simp
    qed
    with True show ?thesis by simp
  next
    case False
    with Cons.prems(2,3) have "new \<in> set xs" by auto
    with Cons False show ?thesis by simp
  qed
qed

lemma update_index_twice:
  assumes "distinct (map ie_id xs)"
  shows "update_index bd b c p (update_index bd b c p xs) = update_index bd b c p xs"
proof -
  define ys where "ys = update_index bd b c p xs"
  have d: "distinct (map ie_id ys)"
    unfolding ys_def using assms by (rule distinct_update_index)
  have "index_entry_of bd b c p \<in> set ys"
    by (simp add: ys_def update_index_def set_sort_newest_first new_in_replace_or_append)
  then have "replace_or_append b (index_entry_of bd b c p) ys = ys"
    using d ie_id_index_entry_of by (intro replace_or_append_present)
  moreover have "newest_first ys"
    unfolding ys_def by (rule newest_first_update_index)
  ultimately have "update_index bd b c p ys = ys"
    by (simp add: update_index_def sort_newest_first_fixed)
  then show ?thesis
    by (simp add: ys_def)
qed

section \<open>Properties of the file operations\<close>


lemma map_of_put: "map_of (put p c fs) q = (if q = p then Some c else map_of fs q)"
  by (induction fs) auto

lemma write_file_files:
  "write_file w p c = Inr w' \<Longrightarrow> map_of (files w') q = (if q = p then Some c else map_of (files w) q)"
  by (auto simp: write_file_def map_of_put split: if_splits)

lemma write_file_dirs:
  "write_file w p c = Inr w' \<Longrightarrow> directories w' = directories w \<and> stdout w' = stdout w"
  by (auto simp: write_file_def split: if_splits)

lemma write_file_ok:
  "p \<noteq> [] \<Longrightarrow> \<not> isdir w p \<Longrightarrow> parent_is_dir w p \<Longrightarrow>
     write_file w p c = Inr (w\<lparr>files := put p c (files w)\<rparr>)"
  by (simp add: write_file_def)

lemma join_not_Nil: "a \<noteq> [] \<Longrightarrow> join a b \<noteq> []"
  by (auto simp: join_def)

lemma blog_dir_not_Nil: "blog_dir_of sd b \<noteq> []"
proof -
  have "join (join sd ''Blogs'') ''allBlogs'' \<noteq> []"
    by (simp add: join_def)
  then show ?thesis
    unfolding blog_dir_of_def by (rule join_not_Nil)
qed

lemma dir_part_append:
  "CHR ''/'' \<notin> set n \<Longrightarrow> dir_part (d @ CHR ''/'' # n) = d @ [CHR ''/'']"
proof -
  assume n: "CHR ''/'' \<notin> set n"
  have "dropWhile (\<lambda>c. c \<noteq> CHR ''/'') (rev n @ CHR ''/'' # rev d) = CHR ''/'' # rev d"
    using n by (auto simp: dropWhile_append3)
  then show ?thesis
    by (simp add: dir_part_def)
qed

lemma dirname_append:
  assumes "CHR ''/'' \<notin> set n" and "d \<noteq> []" and "last d \<noteq> CHR ''/''"
  shows "dirname (d @ CHR ''/'' # n) = d"
proof -
  have "last d \<in> set d"
    using assms(2) by simp
  then have "\<exists>c\<in>set (d @ [CHR ''/'']). c \<noteq> CHR ''/''"
    using assms(3) by auto
  moreover have "dropWhile (\<lambda>c. c = CHR ''/'') (rev d) = rev d"
    using assms(2,3) by (cases "rev d") (auto simp: last_rev [symmetric] hd_rev)
  ultimately show ?thesis
    using assms(1) by (simp add: dirname_def dir_part_append Let_def)
qed

lemma parent_join:
  assumes "d \<noteq> []" and "CHR ''/'' \<notin> set n" and "isdir w d"
  shows "parent_is_dir w (join d n)"
proof (cases "last d = CHR ''/''")
  case True
  then obtain d' where d: "d = d' @ [CHR ''/'']"
    using assms(1) by (metis append_butlast_last_id)
  have "join d n = d' @ CHR ''/'' # n"
    using assms(1,2) True d by (cases n) (auto simp: join_def)
  then have "dir_part (join d n) = d"
    using assms(2) d by (simp add: dir_part_append)
  then show ?thesis
    using assms(3) by (simp add: parent_is_dir_def)
next
  case False
  have "join d n = d @ CHR ''/'' # n"
    using assms(1,2) False by (cases n) (auto simp: join_def)
  then have "dirname (join d n) = d"
    using assms False by (simp add: dirname_append)
  then show ?thesis
    using assms(3) by (simp add: parent_is_dir_def)
qed

lemma basename_plain: "CHR ''/'' \<notin> set (basename p)"
proof
  assume "CHR ''/'' \<in> set (basename p)"
  then have "CHR ''/'' \<in> set (takeWhile (\<lambda>c. c \<noteq> CHR ''/'') (rev p))"
    by (simp add: basename_def)
  then show False
    using set_takeWhileD by fastforce
qed

lemma makedirs_files:
  "makedirs w name = Inr w' \<Longrightarrow> files w' = files w \<and> stdout w' = stdout w"
  by (auto simp: makedirs_def split: if_splits)


lemma copy_image_files:
  assumes "copy_image w src dest = Inr w'"
  shows "q \<noteq> dest \<Longrightarrow> map_of (files w') q = map_of (files w) q"
    and "directories w' = directories w" and "stdout w' = stdout w"
proof -
  from assms obtain w1 d where 1: "write_file w dest (Bytes []) = Inr w1"
    and 2: "write_file w1 dest d = Inr w'"
    by (auto simp: copy_image_def split: sum.splits)
  show "q \<noteq> dest \<Longrightarrow> map_of (files w') q = map_of (files w) q"
    using write_file_files [OF 1, of q] write_file_files [OF 2, of q] by simp
  show "directories w' = directories w"
    using write_file_dirs [OF 1] write_file_dirs [OF 2] by simp
  show "stdout w' = stdout w"
    using write_file_dirs [OF 1] write_file_dirs [OF 2] by simp
qed

lemma place_image_files:
  assumes "place_image sd w b c = Inr w'"
  shows "q \<noteq> image_dest sd b c \<Longrightarrow> map_of (files w') q = map_of (files w) q"
    and "directories w' = directories w" and "stdout w' = stdout w"
  using assms copy_image_files [of w _ "image_dest sd b c" w']
  by (auto simp: place_image_def image_dest_def split: option.splits)




lemma endswith_iff: "endswith s suf \<longleftrightarrow> (\<exists>pre. s = pre @ suf)"
proof
  assume "endswith s suf"
  then have "rev s = rev suf @ drop (length suf) (rev s)"
    unfolding endswith_def by (metis append_take_drop_id)
  then have "s = rev (drop (length suf) (rev s)) @ suf"
    by (metis rev_append rev_rev_ident)
  then show "\<exists>pre. s = pre @ suf" ..
next
  assume "\<exists>pre. s = pre @ suf"
  then show "endswith s suf"
    by (auto simp: endswith_def)
qed

lemma endswith_join: "endswith (join a n) n"
  by (auto simp: endswith_iff join_def intro: exI [of _ "[]"] exI [of _ "a @ [CHR ''/'']"])

lemma endswith_trans: "endswith s t \<Longrightarrow> endswith t u \<Longrightarrow> endswith s u"
  by (auto simp: endswith_iff)

lemma endswith_both:
  assumes "endswith s x" and "endswith s y" and "length x \<le> length y"
  shows "endswith y x"
proof -
  have "take (length x) (rev y) = take (length x) (take (length y) (rev s))"
    using assms(2) by (simp add: endswith_def)
  also have "\<dots> = take (length x) (rev s)"
    using assms(3) by (simp add: min_def)
  also have "\<dots> = rev x"
    using assms(1) by (simp add: endswith_def)
  finally show ?thesis by (simp add: endswith_def)
qed

lemma metadata_path_ends: "endswith (metadata_path sd b) ''blog.json''"
  unfolding metadata_path_def by (rule endswith_join)

lemma index_path_ends: "endswith (index_path_of sd) ''index.json''"
  unfolding index_path_of_def by (rule endswith_join)

lemma image_dest_ends: "endswith (image_dest sd b c) ''.svg''"
proof -
  have "endswith (image_dest sd b c) (slugify c @ ''.svg'')"
    unfolding image_dest_def by (rule endswith_join)
  moreover have "endswith (slugify c @ ''.svg'') ''.svg''"
    unfolding endswith_iff by blast
  ultimately show ?thesis by (rule endswith_trans)
qed

lemma metadata_not_index: "metadata_path sd b \<noteq> index_path_of sd"
proof
  assume "metadata_path sd b = index_path_of sd"
  then have "endswith (index_path_of sd) ''blog.json''"
    using metadata_path_ends [of sd b] by simp
  then have "endswith ''index.json'' ''blog.json''"
    using index_path_ends by (rule endswith_both) simp
  then show False by (simp add: endswith_def)
qed


lemma index_not_image: "index_path_of sd \<noteq> image_dest sd b c"
proof
  assume "index_path_of sd = image_dest sd b c"
  then have "endswith (index_path_of sd) ''.svg''"
    using image_dest_ends [of sd b c] by simp
  then have "endswith ''index.json'' ''.svg''"
    using index_path_ends by (rule endswith_both) simp
  then show False by (simp add: endswith_def)
qed





subsection \<open>What the search for a placeholder finds\<close>















subsection \<open>What an upsert writes\<close>




subsection \<open>The loop over the index in \<^verbatim>\<open>update_blog_image\<close>\<close>


lemma cover_loop_unbound:
  "\<exists>entry\<in>set index_data. ie_id entry = b \<Longrightarrow> cover_loop b None index_data = Inl NameError"
proof (induction index_data)
  case Nil
  then show ?case by simp
next
  case (Cons x xs)
  show ?case
  proof (cases "ie_id x = b")
    case True
    then show ?thesis by simp
  next
    case False
    with Cons.prems have "\<exists>entry\<in>set xs. ie_id entry = b" by auto
    then have "cover_loop b None xs = Inl NameError" by (rule Cons.IH)
    with False show ?thesis by simp
  qed
qed

lemma cover_loop_no_entry:
  "\<forall>entry\<in>set index_data. ie_id entry \<noteq> b \<Longrightarrow> cover_loop b p index_data = Inr index_data"
  by (induction index_data) auto

lemma cover_loop_bound:
  "cover_loop b (Some p) index_data = Inr (set_cover_image b p index_data)"
  by (induction index_data) auto

subsection \<open>The index file after an upsert\<close>











lemma write_index_error: "write_index sd w bd b c = (w', Inl e) \<Longrightarrow> w' = w"
  by (auto simp: write_index_def split: sum.splits if_splits)

lemma write_index_result:
  assumes "write_index sd w bd b c = (w', Inr r)"
  shows "index_of w' sd = update_index bd b c (image_path_of b c) (index_of w sd)"
proof (cases "exists_path w (index_path_of sd)")
  case True
  with assms obtain index_data where l: "load_index w (index_path_of sd) = Inr index_data"
    and wr: "write_file w (index_path_of sd)
        (IndexJson (update_index bd b c (image_path_of b c) index_data)) = Inr w'"
    by (auto simp: write_index_def split: sum.splits)
  from l have "index_of w sd = index_data"
    by (auto simp: load_index_def read_file_def index_of_def split: option.splits content.splits)
  moreover have "index_of w' sd = update_index bd b c (image_path_of b c) index_data"
    using write_file_files [OF wr, of "index_path_of sd"] by (simp add: index_of_def)
  ultimately show ?thesis by simp
next
  case False
  with assms have wr: "write_file w (index_path_of sd)
        (IndexJson (update_index bd b c (image_path_of b c) [])) = Inr w'"
    by (auto simp: write_index_def split: sum.splits)
  from False have "index_of w sd = []"
    by (auto simp: exists_path_def isfile_def index_of_def)
  moreover have "index_of w' sd = update_index bd b c (image_path_of b c) []"
    using write_file_files [OF wr, of "index_path_of sd"] by (simp add: index_of_def)
  ultimately show ?thesis by simp
qed

lemma index_of_cong:
  "map_of (files w') (index_path_of sd) = map_of (files w) (index_path_of sd) \<Longrightarrow>
     index_of w' sd = index_of w sd"
  by (simp add: index_of_def)

lemma create_blog_structure_index:
  assumes "create_blog_structure sd w bd b c = (w', r)"
  shows "index_of w' sd =
    (case r of Inl e \<Rightarrow> index_of w sd
     | Inr i \<Rightarrow> update_index bd b c (image_path_of b c) (index_of w sd))"
proof (cases "makedirs w (blog_dir_of sd b)")
  case (Inl e)
  with assms show ?thesis by (auto simp: create_blog_structure_def)
next
  case 1: (Inr w1)
  then have f1: "files w1 = files w" by (simp add: makedirs_files)
  show ?thesis
  proof (cases "place_image sd w1 b c")
    case (Inl e)
    with assms 1 f1 show ?thesis by (auto simp: create_blog_structure_def index_of_def)
  next
    case 2: (Inr w2)
    have f2: "map_of (files w2) (index_path_of sd) = map_of (files w) (index_path_of sd)"
      using place_image_files(1) [OF 2 index_not_image] f1 by simp
    show ?thesis
    proof (cases "write_file w2 (metadata_path sd b)
        (BlogJson (blog_json_of bd b c (image_path_of b c)))")
      case (Inl e)
      with assms 1 2 have "w' = w2" and "r = Inl e"
        by (auto simp: create_blog_structure_def metadata_path_def)
      with f2 show ?thesis by (simp add: index_of_def)
    next
      case 3: (Inr w3)
      have f3: "map_of (files w3) (index_path_of sd) = map_of (files w) (index_path_of sd)"
        using write_file_files [OF 3, of "index_path_of sd"] metadata_not_index [of sd b] f2
        by (auto split: if_splits)
      then have i3: "index_of w3 sd = index_of w sd"
        by (rule index_of_cong)
      have wi: "write_index sd w3 bd b c = (w', r)"
        using assms 1 2 3 by (simp add: create_blog_structure_def metadata_path_def)
      show ?thesis
      proof (cases r)
        case (Inl e)
        with wi have "w' = w3" by (simp add: write_index_error)
        with Inl i3 show ?thesis by simp
      next
        case (Inr i)
        with wi have "index_of w' sd = update_index bd b c (image_path_of b c) (index_of w3 sd)"
          by (simp add: write_index_result)
        with Inr i3 show ?thesis by simp
      qed
    qed
  qed
qed





section \<open>The claims about the index\<close>

lemma create_success_index:
  assumes "create_blog_structure sd w bd b c = (w', Inr r)"
  shows "index_of w' sd = update_index bd b c (image_path_of b c) (index_of w sd)"
  using create_blog_structure_index [OF assms] by simp

text \<open>
  Claim C1, as amended: the upsert is idempotent on the id when the index has at most one
  entry per id.  Every index the scripts produce from an absent index file has at most one
  entry per id.  On every index with at most one entry per id, upserting the same record
  twice gives the index that upserting it once gives; it has exactly one entry for the
  record's id, whose fields are the id, the record's title, excerpt, date and URL, the
  category and the image path of the upsert; and it has again at most one entry per id.
  The third part says the same of the index file after two runs of
  \<^verbatim>\<open>create_blog_structure\<close> that both return.
\<close>

theorem upsert_idempotent_on_id:
  "(produced index_data \<longrightarrow> distinct (map ie_id index_data)) \<and>
   (distinct (map ie_id index_data) \<longrightarrow>
      update_index bd b c p (update_index bd b c p index_data)
        = update_index bd b c p index_data
      \<and> filter (\<lambda>e. ie_id e = b) (update_index bd b c p (update_index bd b c p index_data))
          = [\<lparr> ie_id = b, ie_title = bd_title bd, ie_excerpt = bd_excerpt bd,
               ie_publishedDate = bd_publishedDate bd, ie_coverImage = p,
               ie_category = c, ie_mediumUrl = bd_mediumUrl bd \<rparr>]
      \<and> distinct (map ie_id (update_index bd b c p (update_index bd b c p index_data)))) \<and>
   (create_blog_structure sd w bd b c = (w1, Inr r1) \<and>
    create_blog_structure sd w1 bd b c = (w2, Inr r2) \<and>
    distinct (map ie_id (index_of w sd)) \<longrightarrow>
      index_of w2 sd = index_of w1 sd
      \<and> filter (\<lambda>e. ie_id e = b) (index_of w2 sd)
          = [\<lparr> ie_id = b, ie_title = bd_title bd, ie_excerpt = bd_excerpt bd,
               ie_publishedDate = bd_publishedDate bd,
               ie_coverImage = ''allBlogs/'' @ b @ ''/'' @ slugify c @ ''.svg'',
               ie_category = c, ie_mediumUrl = bd_mediumUrl bd \<rparr>]
      \<and> distinct (map ie_id (index_of w2 sd)))"
proof (intro conjI impI)
  assume "produced index_data"
  then show "distinct (map ie_id index_data)" by (rule produced_distinct)
next
  assume d: "distinct (map ie_id index_data)"
  then have d1: "distinct (map ie_id (update_index bd b c p index_data))"
    by (rule distinct_update_index)
  then show "distinct (map ie_id (update_index bd b c p (update_index bd b c p index_data)))"
    by (rule distinct_update_index)
  have "filter (\<lambda>e. ie_id e = b) (update_index bd b c p (update_index bd b c p index_data))
      = [index_entry_of bd b c p]"
    using d1 by (rule filter_same_update_index)
  then show "filter (\<lambda>e. ie_id e = b)
      (update_index bd b c p (update_index bd b c p index_data))
      = [\<lparr> ie_id = b, ie_title = bd_title bd, ie_excerpt = bd_excerpt bd,
           ie_publishedDate = bd_publishedDate bd, ie_coverImage = p,
           ie_category = c, ie_mediumUrl = bd_mediumUrl bd \<rparr>]"
    by (simp add: index_entry_of_def)
  show "update_index bd b c p (update_index bd b c p index_data)
      = update_index bd b c p index_data"
    using d by (rule update_index_twice)
next
  assume a: "create_blog_structure sd w bd b c = (w1, Inr r1) \<and>
    create_blog_structure sd w1 bd b c = (w2, Inr r2) \<and>
    distinct (map ie_id (index_of w sd))"
  then have i1: "index_of w1 sd = update_index bd b c (image_path_of b c) (index_of w sd)"
    and i2: "index_of w2 sd = update_index bd b c (image_path_of b c) (index_of w1 sd)"
    by (simp_all add: create_success_index)
  have d1: "distinct (map ie_id (index_of w1 sd))"
    unfolding i1 using a by (intro distinct_update_index) simp
  have "update_index bd b c (image_path_of b c)
      (update_index bd b c (image_path_of b c) (index_of w sd))
      = update_index bd b c (image_path_of b c) (index_of w sd)"
    using a by (intro update_index_twice) simp
  then show "index_of w2 sd = index_of w1 sd"
    by (simp only: i1 i2)
  have "filter (\<lambda>e. ie_id e = b) (index_of w2 sd)
      = [index_entry_of bd b c (image_path_of b c)]"
    unfolding i2 using d1 by (rule filter_same_update_index)
  then show "filter (\<lambda>e. ie_id e = b) (index_of w2 sd)
      = [\<lparr> ie_id = b, ie_title = bd_title bd, ie_excerpt = bd_excerpt bd,
           ie_publishedDate = bd_publishedDate bd,
           ie_coverImage = ''allBlogs/'' @ b @ ''/'' @ slugify c @ ''.svg'',
           ie_category = c, ie_mediumUrl = bd_mediumUrl bd \<rparr>]"
    by (simp add: index_entry_of_def image_path_of_def)
  show "distinct (map ie_id (index_of w2 sd))"
    unfolding i2 using d1 by (rule distinct_update_index)
qed

theorem upsert_idempotent_on_id_witness:
  "produced (update_index post_a ''a'' ''AWS'' ''allBlogs/a/aws.svg'' []) \<and>
   distinct (map ie_id (update_index post_a ''a'' ''AWS'' ''allBlogs/a/aws.svg'' [])) \<and>
   filter (\<lambda>e. ie_id e = ''b'')
     (update_index post_b ''b'' ''AWS'' ''allBlogs/b/aws.svg''
       (update_index post_b ''b'' ''AWS'' ''allBlogs/b/aws.svg''
         (update_index post_a ''a'' ''AWS'' ''allBlogs/a/aws.svg'' [])))
     = [\<lparr> ie_id = ''b'', ie_title = ''B'', ie_excerpt = ''second'',
          ie_publishedDate = ''2024-06-01'', ie_coverImage = ''allBlogs/b/aws.svg'',
          ie_category = ''AWS'', ie_mediumUrl = [] \<rparr>]"
proof -
  let ?i = "update_index post_a ''a'' ''AWS'' ''allBlogs/a/aws.svg'' []"
  note t = upsert_idempotent_on_id [of ?i post_b "''b''" "''AWS''" "''allBlogs/b/aws.svg''"]
  have p: "produced ?i"
    by (intro produced.intros)
  have d: "distinct (map ie_id ?i)"
    by (rule t [THEN conjunct1, THEN mp, OF p])
  have "filter (\<lambda>e. ie_id e = ''b'')
      (update_index post_b ''b'' ''AWS'' ''allBlogs/b/aws.svg''
        (update_index post_b ''b'' ''AWS'' ''allBlogs/b/aws.svg'' ?i))
      = [\<lparr> ie_id = ''b'', ie_title = bd_title post_b, ie_excerpt = bd_excerpt post_b,
           ie_publishedDate = bd_publishedDate post_b, ie_coverImage = ''allBlogs/b/aws.svg'',
           ie_category = ''AWS'', ie_mediumUrl = bd_mediumUrl post_b \<rparr>]"
    by (rule t [THEN conjunct2, THEN conjunct1, THEN mp, OF d, THEN conjunct2, THEN conjunct1])
  then have "filter (\<lambda>e. ie_id e = ''b'')
      (update_index post_b ''b'' ''AWS'' ''allBlogs/b/aws.svg''
        (update_index post_b ''b'' ''AWS'' ''allBlogs/b/aws.svg'' ?i))
      = [\<lparr> ie_id = ''b'', ie_title = ''B'', ie_excerpt = ''second'',
          ie_publishedDate = ''2024-06-01'', ie_coverImage = ''allBlogs/b/aws.svg'',
          ie_category = ''AWS'', ie_mediumUrl = [] \<rparr>]"
    by (simp add: post_b_def)
  with p d show ?thesis
    by (intro conjI)
qed

text \<open>
  The claim as stated, for every index state, fails on an index that lists an id twice.
  The loop replaces the first entry with the id and leaves the loop, so the second one
  stays: after two upserts of a record with id \<^verbatim>\<open>a\<close> the index still has two entries
  with that id, the new one and an old one.  Nothing in the scripts checks the index they
  load.
\<close>

theorem duplicate_ids_kept_counterexample:
  "map ie_id
     (update_index post_b ''a'' ''AWS'' ''allBlogs/a/aws.svg''
       (update_index post_b ''a'' ''AWS'' ''allBlogs/a/aws.svg''
         [index_entry_of post_a ''a'' ''AWS'' ''allBlogs/a/aws.svg'',
          index_entry_of post_a ''a'' ''AWS'' ''allBlogs/a/aws.svg'']))
     = [''a'', ''a''] \<and>
   snd (create_blog_structure ''/repo''
          (fst (create_blog_structure ''/repo'' duplicated_index post_b ''a'' ''AWS''))
          post_b ''a'' ''AWS'') = Inr ''a'' \<and>
   index_of (fst (create_blog_structure ''/repo''
          (fst (create_blog_structure ''/repo'' duplicated_index post_b ''a'' ''AWS''))
          post_b ''a'' ''AWS'')) ''/repo''
     = [index_entry_of post_b ''a'' ''AWS'' ''allBlogs/a/aws.svg'',
        index_entry_of post_a ''a'' ''AWS'' ''allBlogs/a/aws.svg'']"
  by code_simp

text \<open>
  Claim C2: the index stays sorted by \<^verbatim>\<open>publishedDate\<close>, newest first.  Whatever
  the index was, the list an upsert builds is sorted in descending order of the
  \<^verbatim>\<open>publishedDate\<close> strings; so is the index after every sequence of upserts that
  starts from an absent (empty) index, and so is the list in the index file whenever
  \<^verbatim>\<open>create_blog_structure\<close> has returned.
\<close>

theorem index_sorted_after_upserts:
  "newest_first (update_index bd b c p index_data) \<and>
   newest_first (upsert_all ops []) \<and>
   (create_blog_structure sd w bd b c = (w', Inr r) \<longrightarrow> newest_first (index_of w' sd))"
proof (intro conjI impI)
  show "newest_first (update_index bd b c p index_data)"
    by (rule newest_first_update_index)
  have "newest_first []" by (simp add: newest_first_def)
  then show "newest_first (upsert_all ops [])"
    by (rule newest_first_upsert_all)
  assume "create_blog_structure sd w bd b c = (w', Inr r)"
  then show "newest_first (index_of w' sd)"
    by (simp add: create_success_index newest_first_update_index)
qed

theorem index_sorted_after_upserts_witness:
  "newest_first
     (upsert_all [(post_a, ''a'', ''AWS'', ''allBlogs/a/aws.svg''),
                  (post_b, ''b'', ''AWS'', ''allBlogs/b/aws.svg'')] []) \<and>
   upsert_all [(post_a, ''a'', ''AWS'', ''allBlogs/a/aws.svg''),
               (post_b, ''b'', ''AWS'', ''allBlogs/b/aws.svg'')] []
     = [index_entry_of post_b ''b'' ''AWS'' ''allBlogs/b/aws.svg'',
        index_entry_of post_a ''a'' ''AWS'' ''allBlogs/a/aws.svg''] \<and>
   newest_first
     (index_of (fst (create_blog_structure ''/repo'' repo_without_svg post_b ''b'' ''AWS''))
        ''/repo'')"
proof (intro conjI)
  show "newest_first
     (upsert_all [(post_a, ''a'', ''AWS'', ''allBlogs/a/aws.svg''),
                  (post_b, ''b'', ''AWS'', ''allBlogs/b/aws.svg'')] [])"
    by (rule index_sorted_after_upserts [THEN conjunct2, THEN conjunct1])
  show "upsert_all [(post_a, ''a'', ''AWS'', ''allBlogs/a/aws.svg''),
               (post_b, ''b'', ''AWS'', ''allBlogs/b/aws.svg'')] []
     = [index_entry_of post_b ''b'' ''AWS'' ''allBlogs/b/aws.svg'',
        index_entry_of post_a ''a'' ''AWS'' ''allBlogs/a/aws.svg'']"
    by code_simp
  have s: "snd (create_blog_structure ''/repo'' repo_without_svg post_b ''b'' ''AWS'') = Inr ''b''"
    by code_simp
  have "create_blog_structure ''/repo'' repo_without_svg post_b ''b'' ''AWS''
      = (fst (create_blog_structure ''/repo'' repo_without_svg post_b ''b'' ''AWS''), Inr ''b'')"
    by (simp only: s [symmetric] prod.collapse)
  then show "newest_first
     (index_of (fst (create_blog_structure ''/repo'' repo_without_svg post_b ''b'' ''AWS''))
        ''/repo'')"
    by (rule index_sorted_after_upserts [THEN conjunct2, THEN conjunct2, THEN mp])
qed

text \<open>
  Claim C3: the length of the index.  When no entry of the index has the record's id,
  the upsert yields an index one entry longer; when some entry has it, the length does
  not change.  The third part says the same of the index file when
  \<^verbatim>\<open>create_blog_structure\<close> has returned.
\<close>

theorem upsert_length:
  "((\<forall>e\<in>set index_data. ie_id e \<noteq> b) \<longrightarrow>
       length (update_index bd b c p index_data) = length index_data + 1) \<and>
   ((\<exists>e\<in>set index_data. ie_id e = b) \<longrightarrow>
       length (update_index bd b c p index_data) = length index_data) \<and>
   (create_blog_structure sd w bd b c = (w', Inr r) \<longrightarrow>
       length (index_of w' sd) =
         (if \<exists>e\<in>set (index_of w sd). ie_id e = b then length (index_of w sd)
          else length (index_of w sd) + 1))"
proof (intro conjI impI)
  assume "\<forall>e\<in>set index_data. ie_id e \<noteq> b"
  then show "length (update_index bd b c p index_data) = length index_data + 1"
    by (auto simp: update_index_def length_sort_newest_first length_replace_or_append)
next
  assume "\<exists>e\<in>set index_data. ie_id e = b"
  then show "length (update_index bd b c p index_data) = length index_data"
    by (auto simp: update_index_def length_sort_newest_first length_replace_or_append)
next
  assume "create_blog_structure sd w bd b c = (w', Inr r)"
  then have "index_of w' sd = update_index bd b c (image_path_of b c) (index_of w sd)"
    by (rule create_success_index)
  then show "length (index_of w' sd) =
         (if \<exists>e\<in>set (index_of w sd). ie_id e = b then length (index_of w sd)
          else length (index_of w sd) + 1)"
    by (auto simp: update_index_def length_sort_newest_first length_replace_or_append)
qed

theorem upsert_length_witness:
  "length (update_index post_b ''b'' ''AWS'' ''allBlogs/b/aws.svg''
      [index_entry_of post_a ''a'' ''AWS'' ''allBlogs/a/aws.svg'']) = 2 \<and>
   length (update_index post_a ''a'' ''AWS'' ''allBlogs/a/new.svg''
      [index_entry_of post_a ''a'' ''AWS'' ''allBlogs/a/aws.svg'']) = 1"
proof (rule conjI)
  let ?i = "[index_entry_of post_a ''a'' ''AWS'' ''allBlogs/a/aws.svg'']"
  have new: "\<forall>e\<in>set ?i. ie_id e \<noteq> ''b''"
    by (simp add: index_entry_of_def)
  have old: "\<exists>e\<in>set ?i. ie_id e = ''a''"
    by (simp add: index_entry_of_def)
  show "length (update_index post_b ''b'' ''AWS'' ''allBlogs/b/aws.svg'' ?i) = 2"
    using upsert_length [of ?i "''b''" post_b "''AWS''" "''allBlogs/b/aws.svg''",
        THEN conjunct1, THEN mp, OF new]
    by simp
  show "length (update_index post_a ''a'' ''AWS'' ''allBlogs/a/new.svg'' ?i) = 1"
    using upsert_length [of ?i "''a''" post_a "''AWS''" "''allBlogs/a/new.svg''",
        THEN conjunct2, THEN conjunct1, THEN mp, OF old]
    by simp
qed

section \<open>The claims about the files\<close>



text \<open>
  Claim C7: missing paths.  When \<^verbatim>\<open>os.path.exists\<close> fails for the blog directory or
  for the image, \<^verbatim>\<open>update_blog_image\<close> returns \<^verbatim>\<open>False\<close> and the script exits with
  status 1; it has printed the error message of the first check that failed and has
  changed no directory and no file.
\<close>

theorem missing_paths_no_change:
  assumes "\<not> exists_path w (blog_dir_of sd b) \<or> \<not> exists_path w image_path"
  shows "\<exists>w' msg. main_image sd w b image_path = (w', Exit 1)
            \<and> update_blog_image sd w b image_path = (w', Inr False)
            \<and> directories w' = directories w \<and> files w' = files w
            \<and> stdout w' = stdout w @ [msg]
            \<and> msg = (if \<not> exists_path w (blog_dir_of sd b)
                      then ''Error: Blog with ID '' @ quoted b @ '' not found.''
                      else ''Error: Image file '' @ quoted image_path @ '' not found.'')"
  using assms by (auto simp: main_image_def update_blog_image_def print_def Let_def)

theorem missing_paths_no_change_witness:
  "\<exists>w' msg. main_image ''/repo'' orphaned_post ''a'' ''/tmp/none.svg'' = (w', Exit 1)
      \<and> update_blog_image ''/repo'' orphaned_post ''a'' ''/tmp/none.svg'' = (w', Inr False)
      \<and> directories w' = directories orphaned_post \<and> files w' = files orphaned_post
      \<and> stdout w' = stdout orphaned_post @ [msg]
      \<and> msg = (if \<not> exists_path orphaned_post (blog_dir_of ''/repo'' ''a'')
                then ''Error: Blog with ID '' @ quoted ''a'' @ '' not found.''
                else ''Error: Image file '' @ quoted ''/tmp/none.svg'' @ '' not found.'')"
proof -
  have "\<not> exists_path orphaned_post (blog_dir_of ''/repo'' ''a'')
      \<or> \<not> exists_path orphaned_post ''/tmp/none.svg''"
    by code_simp
  then show ?thesis
    by (rule missing_paths_no_change)
qed




text \<open>
  Claim C9: \<^verbatim>\<open>update_blog_image\<close> can end in a \<^verbatim>\<open>NameError\<close>.  When the blog
  directory exists, the image is a file, \<^verbatim>\<open>blog.json\<close> is absent and the index file
  lists an entry with the id, the image is copied and the loop over the index then reads
  \<^verbatim>\<open>relative_image_path\<close>, which only the branch for an existing \<^verbatim>\<open>blog.json\<close>
  binds: the function raises \<^verbatim>\<open>NameError\<close>, which nothing catches, and the index file
  is not rewritten.  The copy must be an ordinary one: the destination is no directory
  and is neither the image itself nor \<^verbatim>\<open>blog.json\<close> nor the index file.
\<close>

theorem unbound_relative_image_path:
  assumes dir: "isdir w (blog_dir_of sd b)"
    and img: "isfile w image_path"
    and nometa: "\<not> exists_path w (metadata_path sd b)"
    and idx: "map_of (files w) (index_path_of sd) = Some (IndexJson index_data)"
    and ent: "\<exists>entry\<in>set index_data. ie_id entry = b"
    and dest: "dest = join (blog_dir_of sd b) (basename image_path)"
    and d1: "\<not> isdir w dest" and d2: "dest \<noteq> image_path"
    and d3: "dest \<noteq> metadata_path sd b" and d4: "dest \<noteq> index_path_of sd"
  shows "\<exists>w'. update_blog_image sd w b image_path = (w', Inl NameError)
           \<and> main_image sd w b image_path = (w', Traceback NameError)
           \<and> map_of (files w') dest = map_of (files w) image_path
           \<and> map_of (files w') (index_path_of sd) = Some (IndexJson index_data)
           \<and> \<not> exists_path w' (metadata_path sd b)"
proof -
  from img obtain data where data: "map_of (files w) image_path = Some data"
    by (auto simp: isfile_def)
  define w1 where "w1 = w\<lparr>files := put dest data (files w)\<rparr>"
  have "parent_is_dir w dest" and "dest \<noteq> []"
    unfolding dest
    using dir by (simp_all add: parent_join blog_dir_not_Nil basename_plain join_not_Nil)
  then have "write_file w dest data = Inr w1"
    using d1 by (simp add: write_file_ok w1_def)
  then have copy: "copy2 w image_path dest = Inr w1"
    using d1 d2 data by (simp add: copy2_def read_file_def)
  have dirs1: "directories w1 = directories w"
    by (simp add: w1_def)
  have files1: "map_of (files w1) q = (if q = dest then Some data else map_of (files w) q)" for q
    by (simp add: w1_def map_of_put)
  have nometa1: "\<not> exists_path w1 (metadata_path sd b)"
    using nometa d3 files1 [of "metadata_path sd b"] dirs1
    by (auto simp: exists_path_def isdir_def isfile_def)
  have json: "update_blog_json w1 b (blog_dir_of sd b) (basename image_path) = (w1, Inr None)"
    using nometa1 by (simp add: update_blog_json_def metadata_path_def)
  have idx1: "map_of (files w1) (index_path_of sd) = Some (IndexJson index_data)"
    using idx d4 files1 [of "index_path_of sd"] by auto
  then have "exists_path w1 (index_path_of sd)"
    by (simp add: exists_path_def isfile_def)
  moreover have "load_index w1 (index_path_of sd) = Inr index_data"
    using idx1 by (simp add: load_index_def read_file_def)
  ultimately have index: "update_index_json sd w1 b None = (w1, Inl NameError)"
    using cover_loop_unbound [OF ent] by (simp add: update_index_json_def)
  have ex: "exists_path w (blog_dir_of sd b)" "exists_path w image_path"
    using dir img by (simp_all add: exists_path_def)
  have u: "update_blog_image sd w b image_path = (w1, Inl NameError)"
    using ex copy json index dest by (simp add: update_blog_image_def)
  then have "main_image sd w b image_path = (w1, Traceback NameError)"
    by (simp add: main_image_def)
  moreover have "map_of (files w1) dest = map_of (files w) image_path"
    using files1 [of dest] data by simp
  ultimately show ?thesis
    using u idx1 nometa1 by blast
qed

theorem unbound_relative_image_path_witness:
  "\<exists>w'. update_blog_image ''/repo'' orphaned_post ''a'' ''/tmp/pic.svg'' = (w', Inl NameError)
      \<and> main_image ''/repo'' orphaned_post ''a'' ''/tmp/pic.svg'' = (w', Traceback NameError)
      \<and> map_of (files w') ''/repo/Blogs/allBlogs/a/pic.svg''
          = map_of (files orphaned_post) ''/tmp/pic.svg''
      \<and> map_of (files w') (index_path_of ''/repo'')
          = Some (IndexJson [index_entry_of post_a ''a'' ''AWS'' ''allBlogs/a/aws.svg''])
      \<and> \<not> exists_path w' (metadata_path ''/repo'' ''a'')"
proof (rule unbound_relative_image_path)
  show "isdir orphaned_post (blog_dir_of ''/repo'' ''a'')"
    by code_simp
  show "isfile orphaned_post ''/tmp/pic.svg''"
    by code_simp
  show "\<not> exists_path orphaned_post (metadata_path ''/repo'' ''a'')"
    by code_simp
  show "map_of (files orphaned_post) (index_path_of ''/repo'')
      = Some (IndexJson [index_entry_of post_a ''a'' ''AWS'' ''allBlogs/a/aws.svg''])"
    by code_simp
  show "\<exists>entry\<in>set [index_entry_of post_a ''a'' ''AWS'' ''allBlogs/a/aws.svg'']. ie_id entry = ''a''"
    by code_simp
  show "''/repo/Blogs/allBlogs/a/pic.svg'' = join (blog_dir_of ''/repo'' ''a'') (basename ''/tmp/pic.svg'')"
    by code_simp
  show "\<not> isdir orphaned_post ''/repo/Blogs/allBlogs/a/pic.svg''"
    by code_simp
  show "''/repo/Blogs/allBlogs/a/pic.svg'' \<noteq> ''/tmp/pic.svg''"
    by code_simp
  show "''/repo/Blogs/allBlogs/a/pic.svg'' \<noteq> metadata_path ''/repo'' ''a''"
    by code_simp
  show "''/repo/Blogs/allBlogs/a/pic.svg'' \<noteq> index_path_of ''/repo''"
    by code_simp
qed



end
